theory Spec2Isabelle
  imports Main "HOL-Library.Sublist" "HOL-Library.Code_Target_Nat"
begin

section \<open>Strings\<close>

text \<open>
  A Python string is modelled by its UTF-8 encoding, a \<^typ>\<open>string\<close> of bytes; a byte
  that is not part of a well-formed sequence stands for itself (in Python, the escaped
  byte \<open>U+DC80\<close> to \<open>U+DCFF\<close>). \<open>sub in s\<close> is \<^const>\<open>sublist\<close> (a contiguous
  sublist) and \<open>s.endswith(suf)\<close> is \<^const>\<open>suffix\<close>. \<open>str.lower\<close> is modelled on the
  ASCII letters, every other byte is left as it is. \<open>str.upper\<close> maps every character
  of the string by the full upper-case mapping of Unicode, see below.
\<close>

definition lower_char :: "char \<Rightarrow> char" where
  "lower_char c =
     (let n = (of_char c :: nat) in if 65 \<le> n \<and> n \<le> 90 then char_of (n + 32) else c)"

definition lower :: "string \<Rightarrow> string" where
  "lower s = map lower_char s"

definition str_in :: "string \<Rightarrow> string \<Rightarrow> bool" where
  "str_in sub s = sublist sub s"

definition endswith :: "string \<Rightarrow> string \<Rightarrow> bool" where
  "endswith s suf = suffix suf s"

subsection \<open>Upper case\<close>

text \<open>
  The full upper-case mapping of the Unicode character database (version 14.0), as
  \<open>str.upper()\<close> applies it to each character. \<open>upper_ranges\<close> holds the characters
  whose upper case is one character: \<open>(lo, hi, step, target)\<close> maps \<open>lo\<close>,
  \<open>lo + step\<close>, ... up to \<open>hi\<close> to \<open>target\<close>, \<open>target + step\<close>, ...
  \<open>upper_special\<close> holds the characters whose upper case is several characters. Every
  other character is its own upper case.
\<close>

definition upper_ranges :: "(nat \<times> nat \<times> nat \<times> nat) list" where
  "upper_ranges =
   [
    (97, 122, 1, 65), (181, 181, 1, 924), (224, 246, 1, 192), (248, 254, 1, 216),
    (255, 255, 1, 376), (257, 303, 2, 256), (305, 305, 1, 73), (307, 311, 2, 306),
    (314, 328, 2, 313), (331, 375, 2, 330), (378, 382, 2, 377), (383, 383, 1, 83),
    (384, 384, 1, 579), (387, 389, 2, 386), (392, 392, 1, 391), (396, 396, 1, 395),
    (402, 402, 1, 401), (405, 405, 1, 502), (409, 409, 1, 408), (410, 410, 1, 573),
    (414, 414, 1, 544), (417, 421, 2, 416), (424, 424, 1, 423), (429, 429, 1, 428),
    (432, 432, 1, 431), (436, 438, 2, 435), (441, 441, 1, 440), (445, 445, 1, 444),
    (447, 447, 1, 503), (453, 453, 1, 452), (454, 454, 1, 452), (456, 456, 1, 455),
    (457, 457, 1, 455), (459, 459, 1, 458), (460, 460, 1, 458), (462, 476, 2, 461),
    (477, 477, 1, 398), (479, 495, 2, 478), (498, 498, 1, 497), (499, 499, 1, 497),
    (501, 501, 1, 500), (505, 543, 2, 504), (547, 563, 2, 546), (572, 572, 1, 571),
    (575, 576, 1, 11390), (578, 578, 1, 577), (583, 591, 2, 582), (592, 592, 1, 11375),
    (593, 593, 1, 11373), (594, 594, 1, 11376), (595, 595, 1, 385), (596, 596, 1, 390),
    (598, 599, 1, 393), (601, 601, 1, 399), (603, 603, 1, 400), (604, 604, 1, 42923),
    (608, 608, 1, 403), (609, 609, 1, 42924), (611, 611, 1, 404), (613, 613, 1, 42893),
    (614, 614, 1, 42922), (616, 616, 1, 407), (617, 617, 1, 406), (618, 618, 1, 42926),
    (619, 619, 1, 11362), (620, 620, 1, 42925), (623, 623, 1, 412), (625, 625, 1, 11374),
    (626, 626, 1, 413), (629, 629, 1, 415), (637, 637, 1, 11364), (640, 640, 1, 422),
    (642, 642, 1, 42949), (643, 643, 1, 425), (647, 647, 1, 42929), (648, 648, 1, 430),
    (649, 649, 1, 580), (650, 651, 1, 433), (652, 652, 1, 581), (658, 658, 1, 439),
    (669, 669, 1, 42930), (670, 670, 1, 42928), (837, 837, 1, 921), (881, 883, 2, 880),
    (887, 887, 1, 886), (891, 893, 1, 1021), (940, 940, 1, 902), (941, 943, 1, 904),
    (945, 961, 1, 913), (962, 962, 1, 931), (963, 971, 1, 931), (972, 972, 1, 908),
    (973, 974, 1, 910), (976, 976, 1, 914), (977, 977, 1, 920), (981, 981, 1, 934),
    (982, 982, 1, 928), (983, 983, 1, 975), (985, 1007, 2, 984), (1008, 1008, 1, 922),
    (1009, 1009, 1, 929), (1010, 1010, 1, 1017), (1011, 1011, 1, 895), (1013, 1013, 1, 917),
    (1016, 1016, 1, 1015), (1019, 1019, 1, 1018), (1072, 1103, 1, 1040), (1104, 1119, 1, 1024),
    (1121, 1153, 2, 1120), (1163, 1215, 2, 1162), (1218, 1230, 2, 1217), (1231, 1231, 1, 1216),
    (1233, 1327, 2, 1232), (1377, 1414, 1, 1329), (4304, 4346, 1, 7312), (4349, 4351, 1, 7357),
    (5112, 5117, 1, 5104), (7296, 7296, 1, 1042), (7297, 7297, 1, 1044), (7298, 7298, 1, 1054),
    (7299, 7300, 1, 1057), (7301, 7301, 1, 1058), (7302, 7302, 1, 1066), (7303, 7303, 1, 1122),
    (7304, 7304, 1, 42570), (7545, 7545, 1, 42877), (7549, 7549, 1, 11363),
    (7566, 7566, 1, 42950), (7681, 7829, 2, 7680), (7835, 7835, 1, 7776), (7841, 7935, 2, 7840),
    (7936, 7943, 1, 7944), (7952, 7957, 1, 7960), (7968, 7975, 1, 7976), (7984, 7991, 1, 7992),
    (8000, 8005, 1, 8008), (8017, 8023, 2, 8025), (8032, 8039, 1, 8040), (8048, 8049, 1, 8122),
    (8050, 8053, 1, 8136), (8054, 8055, 1, 8154), (8056, 8057, 1, 8184), (8058, 8059, 1, 8170),
    (8060, 8061, 1, 8186), (8112, 8113, 1, 8120), (8126, 8126, 1, 921), (8144, 8145, 1, 8152),
    (8160, 8161, 1, 8168), (8165, 8165, 1, 8172), (8526, 8526, 1, 8498), (8560, 8575, 1, 8544),
    (8580, 8580, 1, 8579), (9424, 9449, 1, 9398), (11312, 11359, 1, 11264),
    (11361, 11361, 1, 11360), (11365, 11365, 1, 570), (11366, 11366, 1, 574),
    (11368, 11372, 2, 11367), (11379, 11379, 1, 11378), (11382, 11382, 1, 11381),
    (11393, 11491, 2, 11392), (11500, 11502, 2, 11499), (11507, 11507, 1, 11506),
    (11520, 11557, 1, 4256), (11559, 11559, 1, 4295), (11565, 11565, 1, 4301),
    (42561, 42605, 2, 42560), (42625, 42651, 2, 42624), (42787, 42799, 2, 42786),
    (42803, 42863, 2, 42802), (42874, 42876, 2, 42873), (42879, 42887, 2, 42878),
    (42892, 42892, 1, 42891), (42897, 42899, 2, 42896), (42900, 42900, 1, 42948),
    (42903, 42921, 2, 42902), (42933, 42947, 2, 42932), (42952, 42954, 2, 42951),
    (42961, 42961, 1, 42960), (42967, 42969, 2, 42966), (42998, 42998, 1, 42997),
    (43859, 43859, 1, 42931), (43888, 43967, 1, 5024), (65345, 65370, 1, 65313),
    (66600, 66639, 1, 66560), (66776, 66811, 1, 66736), (66967, 66977, 1, 66928),
    (66979, 66993, 1, 66940), (66995, 67001, 1, 66956), (67003, 67004, 1, 66964),
    (68800, 68850, 1, 68736), (71872, 71903, 1, 71840), (93792, 93823, 1, 93760),
    (125218, 125251, 1, 125184)]"

definition upper_special :: "(nat \<times> nat list) list" where
  "upper_special =
   [
    (223, [83, 83]), (329, [700, 78]), (496, [74, 780]), (912, [921, 776, 769]),
    (944, [933, 776, 769]), (1415, [1333, 1362]), (7830, [72, 817]), (7831, [84, 776]),
    (7832, [87, 778]), (7833, [89, 778]), (7834, [65, 702]), (8016, [933, 787]),
    (8018, [933, 787, 768]), (8020, [933, 787, 769]), (8022, [933, 787, 834]),
    (8064, [7944, 921]), (8065, [7945, 921]), (8066, [7946, 921]), (8067, [7947, 921]),
    (8068, [7948, 921]), (8069, [7949, 921]), (8070, [7950, 921]), (8071, [7951, 921]),
    (8072, [7944, 921]), (8073, [7945, 921]), (8074, [7946, 921]), (8075, [7947, 921]),
    (8076, [7948, 921]), (8077, [7949, 921]), (8078, [7950, 921]), (8079, [7951, 921]),
    (8080, [7976, 921]), (8081, [7977, 921]), (8082, [7978, 921]), (8083, [7979, 921]),
    (8084, [7980, 921]), (8085, [7981, 921]), (8086, [7982, 921]), (8087, [7983, 921]),
    (8088, [7976, 921]), (8089, [7977, 921]), (8090, [7978, 921]), (8091, [7979, 921]),
    (8092, [7980, 921]), (8093, [7981, 921]), (8094, [7982, 921]), (8095, [7983, 921]),
    (8096, [8040, 921]), (8097, [8041, 921]), (8098, [8042, 921]), (8099, [8043, 921]),
    (8100, [8044, 921]), (8101, [8045, 921]), (8102, [8046, 921]), (8103, [8047, 921]),
    (8104, [8040, 921]), (8105, [8041, 921]), (8106, [8042, 921]), (8107, [8043, 921]),
    (8108, [8044, 921]), (8109, [8045, 921]), (8110, [8046, 921]), (8111, [8047, 921]),
    (8114, [8122, 921]), (8115, [913, 921]), (8116, [902, 921]), (8118, [913, 834]),
    (8119, [913, 834, 921]), (8124, [913, 921]), (8130, [8138, 921]), (8131, [919, 921]),
    (8132, [905, 921]), (8134, [919, 834]), (8135, [919, 834, 921]), (8140, [919, 921]),
    (8146, [921, 776, 768]), (8147, [921, 776, 769]), (8150, [921, 834]),
    (8151, [921, 776, 834]), (8162, [933, 776, 768]), (8163, [933, 776, 769]),
    (8164, [929, 787]), (8166, [933, 834]), (8167, [933, 776, 834]), (8178, [8186, 921]),
    (8179, [937, 921]), (8180, [911, 921]), (8182, [937, 834]), (8183, [937, 834, 921]),
    (8188, [937, 921]), (64256, [70, 70]), (64257, [70, 73]), (64258, [70, 76]),
    (64259, [70, 70, 73]), (64260, [70, 70, 76]), (64261, [83, 84]), (64262, [83, 84]),
    (64275, [1348, 1350]), (64276, [1348, 1333]), (64277, [1348, 1339]), (64278, [1358, 1350]),
    (64279, [1348, 1341])]"

definition in_range :: "nat \<Rightarrow> nat \<times> nat \<times> nat \<times> nat \<Rightarrow> bool" where
  "in_range c r =
     (case r of (lo, hi, step, target) \<Rightarrow> lo \<le> c \<and> c \<le> hi \<and> (c - lo) mod step = 0)"

definition upper_full :: "nat \<Rightarrow> nat list" where
  "upper_full c =
     (case map_of upper_special c of
        Some u \<Rightarrow> u
      | None \<Rightarrow>
          (case find (in_range c) upper_ranges of
             Some (lo, hi, step, target) \<Rightarrow> [target + (c - lo)]
           | None \<Rightarrow> [c]))"

text \<open>
  UTF-8. \<open>utf8_sequence n rest\<close> reads the sequence that the lead byte \<open>n\<close> starts:
  the code point and the number of continuation bytes, when the sequence is well formed
  (shortest form, no surrogate, at most \<open>U+10FFFF\<close>).
\<close>

definition continuation :: "char \<Rightarrow> bool" where
  "continuation b = (128 \<le> (of_char b :: nat) \<and> (of_char b :: nat) \<le> 191)"

definition payload :: "char \<Rightarrow> nat" where
  "payload b = of_char b - 128"

definition utf8_sequence :: "nat \<Rightarrow> string \<Rightarrow> (nat \<times> nat) option" where
  "utf8_sequence n rest =
     (if 194 \<le> n \<and> n \<le> 223 then
        (case rest of
           c1 # _ \<Rightarrow>
             if continuation c1 then Some ((n - 192) * 64 + payload c1, 1) else None
         | _ \<Rightarrow> None)
      else if 224 \<le> n \<and> n \<le> 239 then
        (case rest of
           c1 # c2 # _ \<Rightarrow>
             let cp = (n - 224) * 4096 + payload c1 * 64 + payload c2 in
             if continuation c1 \<and> continuation c2 \<and> 2048 \<le> cp
                \<and> \<not> (55296 \<le> cp \<and> cp \<le> 57343)
             then Some (cp, 2) else None
         | _ \<Rightarrow> None)
      else if 240 \<le> n \<and> n \<le> 244 then
        (case rest of
           c1 # c2 # c3 # _ \<Rightarrow>
             let cp = (n - 240) * 262144 + payload c1 * 4096 + payload c2 * 64 + payload c3 in
             if continuation c1 \<and> continuation c2 \<and> continuation c3 \<and> 65536 \<le> cp
                \<and> cp \<le> 1114111
             then Some (cp, 3) else None
         | _ \<Rightarrow> None)
      else None)"

fun utf8_decode :: "string \<Rightarrow> nat list" where
  "utf8_decode [] = []"
| "utf8_decode (b # rest) =
     (let n = of_char b in
      if n < 128 then n # utf8_decode rest
      else (case utf8_sequence n rest of
              Some (cp, k) \<Rightarrow> cp # utf8_decode (drop k rest)
            | None \<Rightarrow> (56320 + n) # utf8_decode rest))"

text \<open>
  The lead byte of a four-byte sequence: code points end at \<open>1114111\<close>, where the
  quotient is at most 4.
\<close>

definition utf8_encode_char :: "nat \<Rightarrow> string" where
  "utf8_encode_char c =
     (if c < 128 then [char_of c]
      else if c < 2048 then [char_of (192 + c div 64), char_of (128 + c mod 64)]
      else if 56448 \<le> c \<and> c \<le> 56575 then [char_of (c - 56320)]
      else if c < 65536 then
        [char_of (224 + c div 4096), char_of (128 + c div 64 mod 64), char_of (128 + c mod 64)]
      else
        [char_of (240 + c div 262144 mod 8), char_of (128 + c div 4096 mod 64),
         char_of (128 + c div 64 mod 64), char_of (128 + c mod 64)])"

definition utf8_encode :: "nat list \<Rightarrow> string" where
  "utf8_encode cs = concat (map utf8_encode_char cs)"

definition upper :: "string \<Rightarrow> string" where
  "upper s = utf8_encode (concat (map upper_full (utf8_decode s)))"

text \<open>\<open>s.split(d)\<close> for a one-character separator: the result is never empty.\<close>

primrec split_on :: "char \<Rightarrow> string \<Rightarrow> string list" where
  "split_on d [] = [[]]"
| "split_on d (c # cs) =
     (if c = d then [] # split_on d cs
      else (case split_on d cs of [] \<Rightarrow> [[c]] | w # ws \<Rightarrow> (c # w) # ws))"

text \<open>\<open>os.path.join(a, b)\<close> of \<open>posixpath\<close>, for two components.\<close>

definition os_path_join :: "string \<Rightarrow> string \<Rightarrow> string" where
  "os_path_join a b =
     (if prefix ''/'' b then b
      else if a = [] \<or> suffix ''/'' a then a @ b
      else a @ ''/'' @ b)"

text \<open>
  The reading of a claim that speaks of two strings being equal ignoring case: they agree
  after both are put in lower case.
\<close>

definition eq_ignore_case :: "string \<Rightarrow> string \<Rightarrow> bool" where
  "eq_ignore_case a b = (lower a = lower b)"

section \<open>Data model\<close>

record finding_details =
  det_rule :: string
  det_path :: string
  det_startLine :: int
  det_endLine :: int

record finding =
  fnd_type :: string
  fnd_cveId :: string
  fnd_severity :: string
  fnd_title :: string
  fnd_url :: string
  fnd_tech :: string
  fnd_version :: string
  fnd_indicator :: string
  fnd_method :: string
  fnd_at :: int
  fnd_source :: string
  fnd_details :: finding_details

text \<open>The dict that \<open>analyze_sast\<close> puts into the scanning list.\<close>

record scanning_item =
  scan_url :: string
  scan_timestamp :: int
  scan_status :: string
  scan_type :: string

text \<open>
  The \<open>record\<close> argument of \<open>analyze_sast\<close>: a dict read with \<open>.get\<close>; a field is
  \<open>None\<close> when the key is absent. The empty dict has no key at all. Keys that the
  code never reads are left out.
\<close>

record captured_record =
  rec_url :: "string option"
  rec_method :: "string option"
  rec_host :: "string option"
  rec_path :: "string option"
  rec_timestamp :: "int option"

definition empty_record :: captured_record where
  "empty_record =
     \<lparr>rec_url = None, rec_method = None, rec_host = None, rec_path = None,
      rec_timestamp = None\<rparr>"

type_synonym headers = "string \<rightharpoonup> string"

text \<open>One entry of the engine's \<open>results\<close> list, with the keys the invoker reads.\<close>

record raw_finding =
  raw_check_id :: string
  raw_severity :: "string option"
  raw_message :: string
  raw_lines :: string
  raw_path :: string
  raw_start_line :: int
  raw_end_line :: int

text \<open>An entry that lacks one of those keys makes the subscript raise.\<close>

datatype raw_entry = Entry raw_finding | Malformed

datatype error = OSError | KeyError

text \<open>
  What one run of the engine on one ruleset can come to:
  \<^item> \<open>SubprocessError\<close>: \<open>subprocess.run(..., check=True)\<close> raises a \<open>SubprocessError\<close>;
  \<^item> \<open>SpawnError\<close>: \<open>subprocess.run\<close> raises an \<open>OSError\<close> (the program cannot be started);
  \<^item> \<open>JSONDecodeError\<close>: \<open>json.loads\<close> rejects the output;
  \<^item> \<open>ResultsMissing\<close>: the output parses, and \<open>len(semgrep_results['results'])\<close> raises;
  \<^item> \<open>ResultsNotList\<close>: \<open>semgrep_results['results']\<close> has a length and is not a list;
  \<^item> \<open>Results\<close>: \<open>semgrep_results['results']\<close> is a list of entries.
\<close>

datatype engine_outcome =
  SubprocessError | SpawnError | JSONDecodeError | ResultsMissing | ResultsNotList
  | Results "raw_entry list"

datatype write_outcome = WriteOk | OpenFails | WriteFails

text \<open>What the process sees of the outside: the file system, the engine, the clock.\<close>

record env =
  cwd :: string
  file_id :: string
  write_result :: write_outcome
  listdir :: "string \<Rightarrow> string list option"
  isdir :: "string \<Rightarrow> bool"
  path_exists :: "string \<Rightarrow> bool"
  engine :: "string \<Rightarrow> string \<Rightarrow> engine_outcome"
  unlink_ok :: bool
  now_ms :: int

text \<open>
  The module's globals, the scratch files on disk, and the URLs whose deferred removal
  (\<open>threading.Timer(2.0, ...)\<close>) has been started and has not fired.
\<close>

record world =
  sast_findings :: "finding list"
  sast_scanning :: "scanning_item list"
  semgrep_initialized :: bool
  files :: "string set"
  timers :: "string list"

section \<open>Constants\<close>

definition TEMP_DIR :: "env \<Rightarrow> string" where
  "TEMP_DIR e = os_path_join (cwd e) ''temp_sast''"

definition RULES_DIR :: "env \<Rightarrow> string" where
  "RULES_DIR e = os_path_join (cwd e) ''semgrep-rules''"

definition MAX_SAST_FINDINGS :: nat where
  "MAX_SAST_FINDINGS = 500"

definition MAX_SCANNING_ITEMS :: nat where
  "MAX_SCANNING_ITEMS = 20"

section \<open>The scan invoker\<close>

definition severity_map :: "(string \<times> string) list" where
  "severity_map = [(''ERROR'', ''CRITICAL''), (''WARNING'', ''HIGH''), (''INFO'', ''MEDIUM'')]"

definition map_semgrep_severity_to_sast_severity :: "string option \<Rightarrow> string" where
  "map_semgrep_severity_to_sast_severity semgrep_severity =
     (case semgrep_severity of
        None \<Rightarrow> ''MEDIUM''
      | Some s \<Rightarrow>
          if s \<noteq> [] then
            (case map_of severity_map (upper s) of Some v \<Rightarrow> v | None \<Rightarrow> ''MEDIUM'')
          else ''MEDIUM'')"

text \<open>Lines 77 to 95 of \<open>run_semgrep_analysis\<close>: the extension of the scratch file.\<close>

definition scratch_extension :: "string \<Rightarrow> string \<Rightarrow> string" where
  "scratch_extension content_type url =
     (if str_in ''html'' content_type then ''.html''
      else if str_in ''javascript'' content_type then ''.js''
      else if str_in ''json'' content_type then ''.json''
      else if str_in ''php'' content_type then ''.php''
      else if str_in ''python'' content_type then ''.py''
      else if endswith url ''.js'' then ''.js''
      else if endswith url ''.php'' then ''.php''
      else if endswith url ''.py'' then ''.py''
      else ''.txt'')"

text \<open>
  Lines 104 to 141: the rule sets of an extension. The four branches of the source run the
  same statements on their own \<open>path\<close>; \<open>os.listdir\<close> raises when the directory cannot
  be listed.
\<close>

definition list_rulesets :: "env \<Rightarrow> string \<Rightarrow> error + string list" where
  "list_rulesets e path =
     (case listdir e path of
        None \<Rightarrow> Inl OSError
      | Some items \<Rightarrow>
          Inr ((path @ ''/security'') # filter (isdir e) (map (os_path_join path) items)))"

definition resolve_rulesets :: "env \<Rightarrow> string \<Rightarrow> error + string list" where
  "resolve_rulesets e extension =
     (if extension \<in> set [''.js''] then list_rulesets e (RULES_DIR e @ ''/javascript'')
      else if extension = ''.html'' then list_rulesets e (RULES_DIR e @ ''/html'')
      else if extension = ''.php'' then list_rulesets e (RULES_DIR e @ ''/php'')
      else if extension = ''.py'' then list_rulesets e (RULES_DIR e @ ''/python'')
      else Inr [])"

text \<open>The arguments of \<open>run_semgrep_analysis\<close>.\<close>

record scan_request =
  req_content :: string
  req_url :: string
  req_method :: string
  req_host :: "string option"
  req_content_type :: string
  req_timestamp :: int

text \<open>Lines 159 to 177: the dict built from one entry of the results.\<close>

definition semgrep_finding :: "scan_request \<Rightarrow> string \<Rightarrow> raw_finding \<Rightarrow> finding" where
  "semgrep_finding rq extension f =
     \<lparr>fnd_type = upper (last (split_on CHR ''.'' (raw_check_id f))),
      fnd_cveId = ''[SEMGREP-'' @ raw_check_id f @ '']'',
      fnd_severity = map_semgrep_severity_to_sast_severity (raw_severity f),
      fnd_title = raw_message f,
      fnd_url = req_url rq,
      fnd_tech = upper (drop 1 extension),
      fnd_version = (case req_host rq of None \<Rightarrow> [] | Some h \<Rightarrow> h),
      fnd_indicator = raw_lines f,
      fnd_method = req_method rq,
      fnd_at = req_timestamp rq,
      fnd_source = ''SEMGREP'',
      fnd_details =
        \<lparr>det_rule = raw_check_id f, det_path = raw_path f,
         det_startLine = raw_start_line f, det_endLine = raw_end_line f\<rparr>\<rparr>"

text \<open>The loop of line 158 over the entries, appending to \<open>findings\<close>.\<close>

fun append_results ::
  "scan_request \<Rightarrow> string \<Rightarrow> raw_entry list \<Rightarrow> finding list \<Rightarrow> error + finding list" where
  "append_results rq extension [] findings = Inr findings"
| "append_results rq extension (Malformed # rest) findings = Inl KeyError"
| "append_results rq extension (Entry f # rest) findings =
     append_results rq extension rest (findings @ [semgrep_finding rq extension f])"

text \<open>
  The loop of line 147 over the rule sets. A \<open>SubprocessError\<close> and a \<open>JSONDecodeError\<close>
  are caught inside the loop; any other exception leaves it.
\<close>

fun run_rulesets ::
  "env \<Rightarrow> scan_request \<Rightarrow> string \<Rightarrow> string \<Rightarrow> string list \<Rightarrow> finding list
     \<Rightarrow> error + finding list" where
  "run_rulesets e rq extension temp_file_path [] findings = Inr findings"
| "run_rulesets e rq extension temp_file_path (ruleset # rest) findings =
     (if path_exists e ruleset then
        (case engine e ruleset temp_file_path of
           SubprocessError \<Rightarrow> run_rulesets e rq extension temp_file_path rest findings
         | SpawnError \<Rightarrow> Inl OSError
         | JSONDecodeError \<Rightarrow> run_rulesets e rq extension temp_file_path rest findings
         | ResultsMissing \<Rightarrow> Inl KeyError
         | ResultsNotList \<Rightarrow> run_rulesets e rq extension temp_file_path rest findings
         | Results entries \<Rightarrow>
             (case append_results rq extension entries findings of
                Inl x \<Rightarrow> Inl x
              | Inr findings' \<Rightarrow> run_rulesets e rq extension temp_file_path rest findings'))
      else run_rulesets e rq extension temp_file_path rest findings)"

definition temp_file_path_of :: "env \<Rightarrow> string \<Rightarrow> string" where
  "temp_file_path_of e extension = os_path_join (TEMP_DIR e) (file_id e @ extension)"

text \<open>
  \<open>run_semgrep_analysis\<close>. The \<open>except Exception\<close> of line 191 returns the empty list
  from wherever the exception was raised; the \<open>os.unlink\<close> of line 186 is the last
  statement of the \<open>try\<close> block before the \<open>return\<close>.
\<close>

definition run_semgrep_analysis :: "env \<Rightarrow> world \<Rightarrow> scan_request \<Rightarrow> finding list \<times> world" where
  "run_semgrep_analysis e w rq =
     (if \<not> semgrep_initialized w then ([], w)
      else
        let extension = scratch_extension (req_content_type rq) (req_url rq);
            temp_file_path = temp_file_path_of e extension
        in case write_result e of
             OpenFails \<Rightarrow> ([], w)
           | WriteFails \<Rightarrow> ([], w\<lparr>files := insert temp_file_path (files w)\<rparr>)
           | WriteOk \<Rightarrow>
               let w1 = w\<lparr>files := insert temp_file_path (files w)\<rparr> in
               (case resolve_rulesets e extension of
                  Inl x \<Rightarrow> ([], w1)
                | Inr rulesets \<Rightarrow>
                    (case (if rulesets \<noteq> []
                           then run_rulesets e rq extension temp_file_path rulesets []
                           else Inr []) of
                       Inl x \<Rightarrow> ([], w1)
                     | Inr findings \<Rightarrow>
                         (findings,
                          if unlink_ok e then w1\<lparr>files := files w1 - {temp_file_path}\<rparr>
                          else w1))))"

section \<open>The legacy analyzers\<close>

definition analyze_html :: "string \<Rightarrow> string \<Rightarrow> string \<Rightarrow> string \<Rightarrow> string \<Rightarrow> int \<Rightarrow> finding list" where
  "analyze_html text url host path method timestamp = []"

definition analyze_javascript :: "string \<Rightarrow> string \<Rightarrow> string \<Rightarrow> string \<Rightarrow> string \<Rightarrow> int \<Rightarrow> finding list" where
  "analyze_javascript text url host path method timestamp = []"

definition analyze_generic :: "string \<Rightarrow> string \<Rightarrow> string \<Rightarrow> string \<Rightarrow> string \<Rightarrow> int \<Rightarrow> finding list" where
  "analyze_generic text url host path method timestamp = []"

section \<open>The scanning list and the findings\<close>

definition header_content_type :: "headers \<Rightarrow> string" where
  "header_content_type hs =
     lower (case hs ''content-type'' of None \<Rightarrow> [] | Some v \<Rightarrow> v)"

definition get_file_type_from_content_type :: "headers \<Rightarrow> string" where
  "get_file_type_from_content_type hs =
     (let content_type = header_content_type hs in
      if str_in ''html'' content_type then ''HTML''
      else if str_in ''javascript'' content_type then ''JavaScript''
      else if str_in ''json'' content_type then ''JSON''
      else if str_in ''xml'' content_type then ''XML''
      else if str_in ''css'' content_type then ''CSS''
      else ''Unknown'')"

text \<open>
  \<open>add_scanning_item\<close>: the argument is \<open>None\<close> for an item that is falsy or has no
  \<open>'url'\<close> key, which the guard of line 255 sends back.
\<close>

definition add_scanning_item :: "scanning_item option \<Rightarrow> scanning_item list \<Rightarrow> scanning_item list" where
  "add_scanning_item item scanning =
     (case item of
        None \<Rightarrow> scanning
      | Some it \<Rightarrow>
          let s1 = filter (\<lambda>scan. scan_url scan \<noteq> scan_url it) scanning;
              s2 = s1 @ [it]
          in if length s2 > MAX_SCANNING_ITEMS then tl s2 else s2)"

fun update_scanning_item_status :: "string \<Rightarrow> string \<Rightarrow> scanning_item list \<Rightarrow> scanning_item list" where
  "update_scanning_item_status url status [] = []"
| "update_scanning_item_status url status (item # rest) =
     (if scan_url item = url then item\<lparr>scan_status := status\<rparr> # rest
      else item # update_scanning_item_status url status rest)"

definition remove_scanning_item :: "string \<Rightarrow> scanning_item list \<Rightarrow> scanning_item list" where
  "remove_scanning_item url scanning = filter (\<lambda>item. scan_url item \<noteq> url) scanning"

text \<open>The body of the loop of line 297.\<close>

definition append_finding :: "finding \<Rightarrow> finding list \<Rightarrow> finding list" where
  "append_finding item fs =
     (let fs1 = fs @ [item] in if length fs1 > MAX_SAST_FINDINGS then tl fs1 else fs1)"

text \<open>\<open>add_sast_findings\<close>: the argument is \<open>None\<close> for a value that is not a list.\<close>

definition add_sast_findings :: "finding list option \<Rightarrow> finding list \<Rightarrow> finding list" where
  "add_sast_findings items fs =
     (case items of
        None \<Rightarrow> fs
      | Some xs \<Rightarrow> if xs = [] then fs else fold append_finding xs fs)"

section \<open>The pipeline\<close>

definition is_html :: "string \<Rightarrow> bool" where
  "is_html content_type = str_in ''html'' content_type"

definition is_js :: "string \<Rightarrow> string \<Rightarrow> bool" where
  "is_js content_type url =
     (str_in ''javascript'' content_type \<or>
      str_in ''application/json'' content_type \<or>
      str_in ''application/x-javascript'' content_type \<or>
      endswith url ''.js'')"

definition is_text :: "string \<Rightarrow> string \<Rightarrow> bool" where
  "is_text content_type url =
     (str_in ''text'' content_type \<or>
      is_html content_type \<or>
      is_js content_type url \<or>
      str_in ''xml'' content_type)"

definition falsy_record :: "captured_record option \<Rightarrow> bool" where
  "falsy_record record = (record = None \<or> record = Some empty_record)"

definition falsy_body :: "string option \<Rightarrow> bool" where
  "falsy_body body = (body = None \<or> body = Some [])"

definition get_default :: "'a option \<Rightarrow> 'a \<Rightarrow> 'a" where
  "get_default v d = (case v of None \<Rightarrow> d | Some x \<Rightarrow> x)"

text \<open>
  \<open>analyze_sast\<close>. With the fields of the record and the headers typed as above, no
  statement of the \<open>try\<close> block raises (\<open>run_semgrep_analysis\<close> catches its own
  exceptions), so the \<open>except\<close> branch of line 378 has no counterpart. The \<open>finally\<close>
  block starts the timer on every way out of the \<open>try\<close> block.
\<close>

definition analyze_sast ::
  "env \<Rightarrow> world \<Rightarrow> captured_record option \<Rightarrow> string option \<Rightarrow> headers option
     \<Rightarrow> finding list \<times> world" where
  "analyze_sast e w record body hdrs =
     (if falsy_record record \<or> falsy_body body then ([], w)
      else
        let r = get_default record empty_record;
            hs = (case hdrs of None \<Rightarrow> Map.empty | Some h \<Rightarrow> h);
            url = get_default (rec_url r) [];
            method = get_default (rec_method r) [];
            host = get_default (rec_host r) [];
            path = get_default (rec_path r) [];
            timestamp =
              (case rec_timestamp r of
                 None \<Rightarrow> now_ms e
               | Some t \<Rightarrow> if t = 0 then now_ms e else t);
            display = get_file_type_from_content_type hs;
            w1 = w\<lparr>sast_scanning :=
                    add_scanning_item
                      (Some \<lparr>scan_url = url, scan_timestamp = timestamp,
                             scan_status = ''analyzing'',
                             scan_type = (if display = [] then ''unknown'' else display)\<rparr>)
                      (sast_scanning w)\<rparr>;
            content_type = header_content_type hs
        in
          if \<not> is_text content_type url \<or> falsy_body body then
            ([], w1\<lparr>sast_scanning := remove_scanning_item url (sast_scanning w1),
                     timers := timers w1 @ [url]\<rparr>)
          else
            let text = get_default body [];
                (semgrep_findings, w2) =
                  run_semgrep_analysis e w1
                    \<lparr>req_content = text, req_url = url, req_method = method,
                     req_host = Some host, req_content_type = content_type,
                     req_timestamp = timestamp\<rparr>;
                findings =
                  semgrep_findings
                  @ (if is_html content_type
                     then analyze_html text url host path method timestamp else [])
                  @ (if is_js content_type url \<or> is_html content_type
                     then analyze_javascript text url host path method timestamp else [])
                  @ analyze_generic text url host path method timestamp;
                w3 = w2\<lparr>sast_scanning :=
                          update_scanning_item_status url ''completed'' (sast_scanning w2)\<rparr>;
                w4 = (if findings \<noteq> []
                      then w3\<lparr>sast_findings := add_sast_findings (Some findings) (sast_findings w3)\<rparr>
                      else w3)
            in (findings, w4\<lparr>timers := timers w4 @ [url]\<rparr>))"

text \<open>The timer of line 386 fires: \<open>remove_scanning_item(url)\<close>.\<close>

definition timer_fires :: "string \<Rightarrow> world \<Rightarrow> world" where
  "timer_fires url w =
     w\<lparr>sast_scanning := remove_scanning_item url (sast_scanning w),
       timers := remove1 url (timers w)\<rparr>"

text \<open>The states of the scanning list that the three operations on it can reach.\<close>

inductive reachable_scanning :: "scanning_item list \<Rightarrow> bool" where
  start: "reachable_scanning []"
| add: "reachable_scanning s \<Longrightarrow> reachable_scanning (add_scanning_item item s)"
| update: "reachable_scanning s \<Longrightarrow> reachable_scanning (update_scanning_item_status url status s)"
| remove: "reachable_scanning s \<Longrightarrow> reachable_scanning (remove_scanning_item url s)"

section \<open>The properties, in the words of the specification\<close>

text \<open>
  The extension rule as a priority list: the first content-type rule whose key occurs in
  the content type, else the first URL suffix that the URL ends in, else \<open>.txt\<close>.
\<close>

definition spec_content_type_rules :: "(string \<times> string) list" where
  "spec_content_type_rules =
     [(''html'', ''.html''), (''javascript'', ''.js''), (''json'', ''.json''),
      (''php'', ''.php''), (''python'', ''.py'')]"

definition spec_url_suffixes :: "string list" where
  "spec_url_suffixes = [''.js'', ''.php'', ''.py'']"

definition spec_extension :: "string \<Rightarrow> string \<Rightarrow> string" where
  "spec_extension content_type url =
     (case find (\<lambda>rule. str_in (fst rule) content_type) spec_content_type_rules of
        Some rule \<Rightarrow> snd rule
      | None \<Rightarrow>
          (case find (\<lambda>suf. endswith url suf) spec_url_suffixes of
             Some suf \<Rightarrow> suf
           | None \<Rightarrow> ''.txt''))"

text \<open>The last \<open>n\<close> elements of a list, in their order.\<close>

definition lastn :: "nat \<Rightarrow> 'a list \<Rightarrow> 'a list" where
  "lastn n xs = drop (length xs - n) xs"

text \<open>The findings that a sequence of calls of \<open>add_sast_findings\<close> inserts, in order.\<close>

definition inserted_findings :: "finding list option list \<Rightarrow> finding list" where
  "inserted_findings calls = concat (map (\<lambda>c. case c of None \<Rightarrow> [] | Some xs \<Rightarrow> xs) calls)"

text \<open>The language directory of a supported extension.\<close>

definition spec_language :: "string \<Rightarrow> string option" where
  "spec_language extension =
     map_of [(''.js'', ''javascript''), (''.html'', ''html''), (''.php'', ''php''),
             (''.py'', ''python'')] extension"

text \<open>
  The last dot-delimited segment of a string: what follows its last dot, the whole string
  when it has no dot.
\<close>

definition spec_last_segment :: "string \<Rightarrow> string" where
  "spec_last_segment s = rev (takeWhile (\<lambda>c. c \<noteq> CHR ''.'') (rev s))"

text \<open>
  The dotless \<open>i\<close> (\<open>U+0131\<close>, the bytes \<open>C4 B1\<close>) read as the letter \<open>i\<close>.
\<close>

fun fold_dotless :: "string \<Rightarrow> string" where
  "fold_dotless [] = []"
| "fold_dotless [c] = [c]"
| "fold_dotless (c # d # rest) =
     (if c = CHR 0xC4 \<and> d = CHR 0xB1 then CHR ''i'' # fold_dotless rest
      else c # fold_dotless (d # rest))"

text \<open>
  Notions for the upper case of a word of capital letters: \<open>pre_ok cp k\<close> says that the
  code point \<open>cp\<close> is the capital \<open>k\<close>, its small letter or, for \<open>I\<close>, the dotless
  \<open>i\<close>; a word is \<open>plain\<close> when no upper case of several characters occurs in it.
\<close>

definition pre_ok :: "nat \<Rightarrow> nat \<Rightarrow> bool" where
  "pre_ok cp k = (cp = k \<or> cp = k + 32 \<or> (k = 73 \<and> cp = 305))"

definition simple_letter :: "nat \<Rightarrow> bool" where
  "simple_letter k = (65 \<le> k \<and> k \<le> 90 \<and> k \<noteq> 83)"

fun plain :: "nat list \<Rightarrow> bool" where
  "plain [] = True"
| "plain (k # K) = (list_all (\<lambda>u. \<not> prefix u (k # K)) (map snd upper_special) \<and> plain K)"

definition capital :: "char \<Rightarrow> bool" where
  "capital k = simple_letter (of_char k)"

section \<open>Example data\<close>

definition example_item :: "nat \<Rightarrow> scanning_item" where
  "example_item n =
     \<lparr>scan_url = ''http://x/'' @ replicate n CHR ''a'', scan_timestamp = int n,
      scan_status = ''analyzing'', scan_type = ''HTML''\<rparr>"

definition example_finding :: finding where
  "example_finding =
     \<lparr>fnd_type = ''RULE'', fnd_cveId = ''[SEMGREP-a.rule]'', fnd_severity = ''HIGH'',
      fnd_title = ''t'', fnd_url = ''http://x/a.js'', fnd_tech = ''JS'', fnd_version = ''x'',
      fnd_indicator = ''eval(x)'', fnd_method = ''GET'', fnd_at = 1000,
      fnd_source = ''SEMGREP'',
      fnd_details = \<lparr>det_rule = ''a.rule'', det_path = ''/tmp/f.js'', det_startLine = 1,
                     det_endLine = 1\<rparr>\<rparr>"

definition item_a :: scanning_item where
  "item_a = \<lparr>scan_url = ''http://x/a.js'', scan_timestamp = 1000, scan_status = ''completed'',
             scan_type = ''JavaScript''\<rparr>"

definition item_b :: scanning_item where
  "item_b = \<lparr>scan_url = ''http://x/b.html'', scan_timestamp = 1500, scan_status = ''analyzing'',
             scan_type = ''HTML''\<rparr>"

definition item_a2 :: scanning_item where
  "item_a2 = \<lparr>scan_url = ''http://x/a.js'', scan_timestamp = 2000, scan_status = ''analyzing'',
              scan_type = ''Unknown''\<rparr>"

definition example_raw :: raw_finding where
  "example_raw =
     \<lparr>raw_check_id = ''javascript.lang.security.eval.rule'', raw_severity = Some ''WARNING'',
      raw_message = ''eval of user input'', raw_lines = ''eval(userInput)'',
      raw_path = ''/app/temp_sast/0f8fad5b.js'', raw_start_line = 1, raw_end_line = 1\<rparr>"

definition example_env :: env where
  "example_env =
     \<lparr>cwd = ''/app'', file_id = ''0f8fad5b'', write_result = WriteOk,
      listdir = (\<lambda>p. if p = ''/app/semgrep-rules/javascript''
                      then Some [''security'', ''lang'', ''README.md''] else None),
      isdir = (\<lambda>p. p = ''/app/semgrep-rules/javascript/security''
                    \<or> p = ''/app/semgrep-rules/javascript/lang''),
      path_exists = (\<lambda>p. p = ''/app/semgrep-rules/javascript/lang''),
      engine = (\<lambda>ruleset file. if ruleset = ''/app/semgrep-rules/javascript/lang''
                                then Results [Entry example_raw] else SubprocessError),
      unlink_ok = True, now_ms = 5000\<rparr>"

definition example_world :: world where
  "example_world =
     \<lparr>sast_findings = [], sast_scanning = [], semgrep_initialized = True, files = {},
      timers = []\<rparr>"

definition example_request :: scan_request where
  "example_request =
     \<lparr>req_content = ''eval(userInput)'', req_url = ''http://x/a.js'', req_method = ''GET'',
      req_host = Some ''x'', req_content_type = ''application/javascript'',
      req_timestamp = 1000\<rparr>"

definition example_js_finding :: finding where
  "example_js_finding =
     \<lparr>fnd_type = ''RULE'', fnd_cveId = ''[SEMGREP-javascript.lang.security.eval.rule]'',
      fnd_severity = ''HIGH'', fnd_title = ''eval of user input'', fnd_url = ''http://x/a.js'',
      fnd_tech = ''JS'', fnd_version = ''x'', fnd_indicator = ''eval(userInput)'',
      fnd_method = ''GET'', fnd_at = 1000, fnd_source = ''SEMGREP'',
      fnd_details =
        \<lparr>det_rule = ''javascript.lang.security.eval.rule'',
         det_path = ''/app/temp_sast/0f8fad5b.js'', det_startLine = 1, det_endLine = 1\<rparr>\<rparr>"

definition png_record :: captured_record where
  "png_record =
     \<lparr>rec_url = Some ''http://x/logo.png'', rec_method = Some ''GET'', rec_host = Some ''x'',
      rec_path = Some ''/logo.png'', rec_timestamp = Some 1000\<rparr>"

definition png_headers :: headers where
  "png_headers = [''content-type'' \<mapsto> ''image/png'']"

definition plain_headers :: headers where
  "plain_headers = [''content-type'' \<mapsto> ''Text/Plain'']"

definition busy_world :: world where
  "busy_world =
     \<lparr>sast_findings = [],
      sast_scanning =
        [\<lparr>scan_url = ''http://x/logo.png'', scan_timestamp = 1000, scan_status = ''completed'',
          scan_type = ''Unknown''\<rparr>],
      semgrep_initialized = True, files = {}, timers = [''http://x/logo.png'']\<rparr>"

section \<open>Case conversion\<close>

subsection \<open>The upper case of a code point\<close>

lemma special_nonempty: "list_all (\<lambda>(c, u). u \<noteq> []) upper_special"
  by code_simp

lemma special_long: "list_all (\<lambda>(c, u). length u \<noteq> 1) upper_special"
  by code_simp

lemma special_keys: "list_all (\<lambda>(c, u). 223 \<le> c) upper_special"
  by code_simp

lemma ranges_low: "list_all (\<lambda>(lo, hi, step, target). 97 \<le> lo) upper_ranges"
  by code_simp

lemma ranges_letters:
  "filter (\<lambda>(lo, hi, step, target). target \<le> 90) upper_ranges
     = [(97, 122, 1, 65), (305, 305, 1, 73), (383, 383, 1, 83)]"
  by code_simp

lemma upper_full_305: "upper_full 305 = [73]"
  by code_simp

lemma ranges_head: "\<exists>rest. upper_ranges = (97, 122, 1, 65) # rest"
  by (simp add: upper_ranges_def)

lemma special_none: "c < 223 \<Longrightarrow> map_of upper_special c = None"
proof (rule ccontr)
  assume c: "c < 223" and "map_of upper_special c \<noteq> None"
  then obtain u where "map_of upper_special c = Some u" by blast
  then have "(c, u) \<in> set upper_special" by (rule map_of_SomeD)
  with special_keys have "223 \<le> c" by (auto simp: list_all_iff)
  with c show False by simp
qed

lemma upper_full_capital: "c \<le> 90 \<Longrightarrow> upper_full c = [c]"
proof -
  assume c: "c \<le> 90"
  have "find (in_range c) upper_ranges = None"
  proof (rule ccontr)
    assume "find (in_range c) upper_ranges \<noteq> None"
    then obtain r where "find (in_range c) upper_ranges = Some r" by blast
    then have r: "r \<in> set upper_ranges" "in_range c r"
      by (auto simp: find_Some_iff)
    with ranges_low have "97 \<le> fst r" by (auto simp: list_all_iff)
    with r(2) c show False by (auto simp: in_range_def split: prod.splits)
  qed
  with c show ?thesis by (simp add: upper_full_def special_none)
qed

lemma upper_full_small: "97 \<le> c \<Longrightarrow> c \<le> 122 \<Longrightarrow> upper_full c = [c - 32]"
proof -
  assume c: "97 \<le> c" "c \<le> 122"
  from ranges_head obtain rest where "upper_ranges = (97, 122, 1, 65) # rest" by blast
  then have u: "upper_ranges = (97, 122, 1, 65) # rest" .
  from c have "find (in_range c) ((97, 122, 1, 65) # rest) = Some (97, 122, 1, 65)"
    by (simp add: in_range_def)
  then have "find (in_range c) upper_ranges = Some (97, 122, 1, 65)"
    by (simp only: u)
  with c show ?thesis by (simp add: upper_full_def special_none)
qed

lemma upper_full_nonempty: "upper_full c \<noteq> []"
proof (cases "map_of upper_special c")
  case None
  then show ?thesis by (simp add: upper_full_def split: option.splits prod.splits)
next
  case (Some u)
  then have "(c, u) \<in> set upper_special" by (rule map_of_SomeD)
  with special_nonempty have "u \<noteq> []" by (auto simp: list_all_iff)
  with Some show ?thesis by (simp add: upper_full_def)
qed

lemma pre_ok_upper_full: "simple_letter k \<Longrightarrow> pre_ok cp k \<Longrightarrow> upper_full cp = [k]"
  unfolding pre_ok_def simple_letter_def
  by (auto simp: upper_full_capital upper_full_small upper_full_305)

lemma upper_full_single_pre:
  assumes "upper_full cp = [k]" "simple_letter k"
  shows "pre_ok cp k"
proof (cases "map_of upper_special cp")
  case (Some u)
  then have "(cp, u) \<in> set upper_special" by (rule map_of_SomeD)
  with special_long have "length u \<noteq> 1" by (auto simp: list_all_iff)
  with Some assms(1) show ?thesis by (simp add: upper_full_def)
next
  case None
  show ?thesis
  proof (cases "find (in_range cp) upper_ranges")
    case n: None
    with None assms(1) show ?thesis by (simp add: upper_full_def pre_ok_def)
  next
    case (Some r)
    obtain lo hi step target where r: "r = (lo, hi, step, target)" by (cases r) auto
    from Some have m: "r \<in> set upper_ranges" and i: "in_range cp r"
      by (auto simp: find_Some_iff)
    from None Some r assms(1) have k: "k = target + (cp - lo)" by (simp add: upper_full_def)
    with assms(2) have "target \<le> 90" by (simp add: simple_letter_def)
    with m r have "r \<in> set (filter (\<lambda>(lo, hi, step, target). target \<le> 90) upper_ranges)"
      by simp
    then have "r \<in> set [(97, 122, 1, 65), (305, 305, 1, 73), (383, 383, 1, 83)]"
      by (simp only: ranges_letters)
    with r i k assms(2) show ?thesis
      by (auto simp: in_range_def pre_ok_def simple_letter_def)
  qed
qed

lemma upper_full_prefix_single:
  assumes "upper_full cp @ rest = k # K" "plain (k # K)"
  shows "upper_full cp = [k] \<and> rest = K"
proof (cases "map_of upper_special cp")
  case (Some u)
  then have "(cp, u) \<in> set upper_special" by (rule map_of_SomeD)
  then have "u \<in> set (map snd upper_special)" by force
  with assms(2) have "\<not> prefix u (k # K)" by (auto simp: list_all_iff)
  moreover from Some assms(1) have "prefix u (k # K)"
    by (simp add: upper_full_def) (metis prefixI)
  ultimately show ?thesis by simp
next
  case None
  then have "\<exists>x. upper_full cp = [x]"
    by (cases "find (in_range cp) upper_ranges") (auto simp: upper_full_def)
  then obtain x where "upper_full cp = [x]" by blast
  with assms(1) show ?thesis by simp
qed

lemma upper_cps_word:
  "plain K \<Longrightarrow> list_all simple_letter K \<Longrightarrow>
   concat (map upper_full cps) = K \<longleftrightarrow> list_all2 pre_ok cps K"
proof (induction cps arbitrary: K)
  case Nil
  then show ?case by auto
next
  case (Cons cp cps)
  show ?case
  proof (cases K)
    case Nil
    then show ?thesis by (simp add: upper_full_nonempty)
  next
    case (Cons k K')
    with Cons.prems have p: "plain (k # K')" "plain K'" and l: "simple_letter k" "list_all simple_letter K'"
      by simp_all
    note IH = Cons.IH [OF p(2) l(2)]
    show ?thesis
    proof
      assume "concat (map upper_full (cp # cps)) = K"
      then have "upper_full cp @ concat (map upper_full cps) = k # K'" using Cons by simp
      from upper_full_prefix_single [OF this p(1)]
      have s: "upper_full cp = [k]" and r: "concat (map upper_full cps) = K'" by simp_all
      from upper_full_single_pre [OF s l(1)] r IH Cons show "list_all2 pre_ok (cp # cps) K"
        by simp
    next
      assume "list_all2 pre_ok (cp # cps) K"
      with Cons have a: "pre_ok cp k" and b: "list_all2 pre_ok cps K'" by simp_all
      from pre_ok_upper_full [OF l(1) a] b IH Cons show "concat (map upper_full (cp # cps)) = K"
        by simp
    qed
  qed
qed


subsection \<open>The upper case of a string\<close>

lemma encode_char_high:
  "128 \<le> c \<Longrightarrow> \<exists>b bs. utf8_encode_char c = b # bs \<and> 128 \<le> (of_char b :: nat)"
proof -
  assume c: "128 \<le> c"
  have m: "240 + c div 262144 mod 8 < (256::nat)"
  proof -
    have "c div 262144 mod 8 < 8" by simp
    then show ?thesis by linarith
  qed
  show ?thesis
    unfolding utf8_encode_char_def using c m
    by (auto simp: mod_if)
qed

lemma utf8_encode_ascii:
  "list_all (\<lambda>k. (of_char k :: nat) < 128) K \<Longrightarrow>
   utf8_encode cs = K \<longleftrightarrow> cs = map of_char K"
proof (induction cs arbitrary: K)
  case Nil
  then show ?case by (auto simp: utf8_encode_def)
next
  case (Cons c cs)
  show ?case
  proof (cases "c < 128")
    case True
    then have e: "utf8_encode (c # cs) = char_of c # utf8_encode cs"
      by (simp add: utf8_encode_def utf8_encode_char_def)
    show ?thesis
    proof (cases K)
      case Nil
      with e show ?thesis by simp
    next
      case (Cons k K')
      with Cons.prems have k: "(of_char k :: nat) < 128" and K': "list_all (\<lambda>k. (of_char k :: nat) < 128) K'"
        by simp_all
      have "char_of c = k \<longleftrightarrow> c = of_char k"
      proof
        assume "char_of c = k"
        then have "(of_char (char_of c) :: nat) = of_char k" by simp
        with True show "c = of_char k" by simp
      next
        assume "c = of_char k"
        then show "char_of c = k" by simp
      qed
      with e Cons Cons.IH [OF K'] show ?thesis by auto
    qed
  next
    case False
    then have "128 \<le> c" by simp
    from encode_char_high [OF this] obtain b bs where
      b: "utf8_encode_char c = b # bs" "128 \<le> (of_char b :: nat)" by blast
    then have e: "utf8_encode (c # cs) = b # bs @ utf8_encode cs"
      by (simp add: utf8_encode_def)
    show ?thesis
    proof (cases K)
      case Nil
      with e show ?thesis by simp
    next
      case (Cons k K')
      with Cons.prems have k: "(of_char k :: nat) < 128" by simp
      with b(2) have "b \<noteq> k" by auto
      moreover from k False have "c \<noteq> of_char k" by auto
      ultimately show ?thesis using e Cons by auto
    qed
  qed
qed

text \<open>Decoding: only the bytes \<open>C4 B1\<close> give the dotless \<open>i\<close>.\<close>

lemma char_of_177: "char_of (177 :: nat) = CHR 0xB1"
  by code_simp

lemma char_of_196: "char_of (196 :: nat) = CHR 0xC4"
  by code_simp

lemma char_of_73: "char_of (73 :: nat) = CHR ''I''"
  by code_simp

lemma of_char_177: "(of_char c :: nat) = 177 \<Longrightarrow> c = CHR 0xB1"
proof -
  assume "(of_char c :: nat) = 177"
  then have "char_of (of_char c :: nat) = char_of (177 :: nat)" by simp
  then show ?thesis by (simp add: char_of_177)
qed

lemma of_char_196: "(of_char c :: nat) = 196 \<Longrightarrow> c = CHR 0xC4"
proof -
  assume "(of_char c :: nat) = 196"
  then have "char_of (of_char c :: nat) = char_of (196 :: nat)" by simp
  then show ?thesis by (simp add: char_of_196)
qed

lemma of_char_73: "(of_char c :: nat) = 73 \<longleftrightarrow> c = CHR ''I''"
proof
  assume "(of_char c :: nat) = 73"
  then have "char_of (of_char c :: nat) = char_of (73 :: nat)" by simp
  then show "c = CHR ''I''" by (simp add: char_of_73)
qed simp

lemma lower_char_i: "lower_char CHR ''i'' = CHR ''i''"
  by (simp add: lower_char_def)

lemma two_bytes_305:
  assumes "194 \<le> n" "n \<le> 223" "continuation c1" "(n - 192) * 64 + payload c1 = 305"
  shows "n = 196 \<and> c1 = CHR 0xB1"
proof -
  from assms(3) have "128 \<le> (of_char c1 :: nat)" "(of_char c1 :: nat) \<le> 191"
    by (simp_all add: continuation_def)
  then have p: "payload c1 < 64" "(of_char c1 :: nat) = payload c1 + 128"
    unfolding payload_def by arith+
  from assms(1,4) p(1) have "n - 192 = 4" by arith
  with assms(1) have n: "n = 196" by arith
  with assms(4) have "payload c1 = 49" by simp
  with p(2) have "(of_char c1 :: nat) = 177" by simp
  with n show ?thesis by (simp add: of_char_177)
qed

lemma utf8_sequence_high:
  assumes "128 \<le> n" "utf8_sequence n rest = Some (cp, j)"
  shows "128 \<le> cp \<and> (cp = 305 \<longrightarrow> n = 196 \<and> j = 1 \<and> (\<exists>r. rest = CHR 0xB1 # r))"
proof -
  consider (two) "194 \<le> n \<and> n \<le> 223" | (three) "224 \<le> n \<and> n \<le> 239"
    | (four) "240 \<le> n \<and> n \<le> 244" | (none) "n < 194 \<or> 244 < n"
    by linarith
  then show ?thesis
  proof cases
    case two
    with assms(2) obtain c1 r where r: "rest = c1 # r" and c: "continuation c1"
      and cp: "cp = (n - 192) * 64 + payload c1" and j: "j = 1"
      by (auto simp: utf8_sequence_def split: list.splits if_splits)
    from two cp have "128 \<le> cp" by arith
    moreover have "cp = 305 \<longrightarrow> n = 196 \<and> c1 = CHR 0xB1"
      using two c cp two_bytes_305 [of n c1] by simp
    ultimately show ?thesis using r j by simp
  next
    case three
    with assms(2) have "2048 \<le> cp"
      by (auto simp: utf8_sequence_def Let_def split: list.splits if_splits)
    then show ?thesis by simp
  next
    case four
    with assms(2) have "65536 \<le> cp"
      by (auto simp: utf8_sequence_def Let_def split: list.splits if_splits)
    then show ?thesis by simp
  next
    case none
    with assms(2) show ?thesis by (auto simp: utf8_sequence_def)
  qed
qed

lemma fold_dotless_other:
  "\<not> (b = CHR 0xC4 \<and> (\<exists>r. rest = CHR 0xB1 # r)) \<Longrightarrow>
   fold_dotless (b # rest) = b # fold_dotless rest"
  by (cases rest) auto

lemma of_char_lower_char:
  "(of_char (lower_char c) :: nat) =
     (if 65 \<le> (of_char c :: nat) \<and> (of_char c :: nat) \<le> 90 then of_char c + 32 else of_char c)"
  by (simp add: lower_char_def Let_def)

lemma lower_char_eq_iff:
  "lower_char a = lower_char b \<longleftrightarrow> (of_char (lower_char a) :: nat) = of_char (lower_char b)"
  by simp

lemma pre_ok_lower:
  "capital k \<Longrightarrow> (of_char b :: nat) < 128 \<Longrightarrow>
   pre_ok (of_char b) (of_char k) \<longleftrightarrow> lower_char b = lower_char k"
  unfolding lower_char_eq_iff of_char_lower_char pre_ok_def capital_def simple_letter_def
  by auto

lemma pre_ok_high:
  "capital k \<Longrightarrow> 128 \<le> cp \<Longrightarrow> pre_ok cp (of_char k) \<longleftrightarrow> cp = 305 \<and> k = CHR ''I''"
proof -
  assume k: "capital k" and c: "128 \<le> cp"
  have "(of_char k :: nat) = 73 \<longleftrightarrow> k = CHR ''I''" by (rule of_char_73)
  with k c show ?thesis
    unfolding pre_ok_def capital_def simple_letter_def by auto
qed

lemma lower_high:
  "capital k \<Longrightarrow> 128 \<le> (of_char b :: nat) \<Longrightarrow> lower_char b \<noteq> lower_char k"
  unfolding lower_char_eq_iff of_char_lower_char capital_def simple_letter_def
  by auto

lemma lower_i_capital: "capital k \<Longrightarrow> CHR ''i'' = lower_char k \<longleftrightarrow> k = CHR ''I''"
proof -
  assume k: "capital k"
  have "CHR ''i'' = lower_char k \<longleftrightarrow> (of_char (CHR ''i'') :: nat) = of_char (lower_char k)"
    by (simp only: of_char_eq_iff)
  also have "\<dots> \<longleftrightarrow> (of_char k :: nat) = 73"
    using k unfolding of_char_lower_char capital_def simple_letter_def by auto
  also have "\<dots> \<longleftrightarrow> k = CHR ''I''" by (rule of_char_73)
  finally show ?thesis .
qed

lemma decode_dotless: "utf8_decode (CHR 0xC4 # CHR 0xB1 # r) = 305 # utf8_decode r"
  by (simp add: utf8_sequence_def continuation_def payload_def)

lemma decode_word:
  "list_all capital K \<Longrightarrow>
   list_all2 pre_ok (utf8_decode s) (map of_char K) \<longleftrightarrow> lower (fold_dotless s) = lower K"
proof (induction s arbitrary: K rule: length_induct)
  case (1 s)
  show ?case
  proof (cases s)
    case Nil
    then show ?thesis by (auto simp: lower_def)
  next
    case (Cons b rest)
    show ?thesis
    proof (cases K)
      case Nil
      have "utf8_decode (b # rest) \<noteq> []"
        by (auto simp: Let_def split: option.splits)
      moreover have "fold_dotless (b # rest) \<noteq> []"
        by (cases rest) auto
      ultimately show ?thesis using Nil Cons by (simp add: lower_def)
    next
      case K: (Cons k K')
      with "1.prems" have k: "capital k" and K': "list_all capital K'" by simp_all
      show ?thesis
      proof (cases "b = CHR 0xC4 \<and> (\<exists>r. rest = CHR 0xB1 # r)")
        case True
        then obtain r where r: "rest = CHR 0xB1 # r" and b: "b = CHR 0xC4" by blast
        have "length r < length s" using Cons r by simp
        with "1.IH" K' have IH:
          "list_all2 pre_ok (utf8_decode r) (map of_char K') \<longleftrightarrow> lower (fold_dotless r) = lower K'"
          by blast
        have h: "pre_ok 305 (of_char k) \<longleftrightarrow> k = CHR ''I''"
          using pre_ok_high [OF k, of 305] by simp
        from IH h lower_i_capital [OF k] show ?thesis
          unfolding Cons r b K
          by (simp add: decode_dotless lower_def lower_char_i del: utf8_decode.simps)
      next
        case False
        then have f: "fold_dotless (b # rest) = b # fold_dotless rest"
          by (rule fold_dotless_other)
        have "length rest < length s" using Cons by simp
        with "1.IH" K' have IH:
          "list_all2 pre_ok (utf8_decode rest) (map of_char K') \<longleftrightarrow> lower (fold_dotless rest) = lower K'"
          by blast
        show ?thesis
        proof (cases "(of_char b :: nat) < 128")
          case True
          then have d: "utf8_decode (b # rest) = of_char b # utf8_decode rest" by simp
          from pre_ok_lower [OF k True] IH show ?thesis
            unfolding Cons K f d by (simp add: lower_def)
        next
          case high: False
          then have hb: "128 \<le> (of_char b :: nat)" by simp
          have "\<exists>cp tl. utf8_decode (b # rest) = cp # tl \<and> 128 \<le> cp \<and> cp \<noteq> 305"
          proof (cases "utf8_sequence (of_char b) rest")
            case None
            with high show ?thesis by simp
          next
            case (Some a)
            obtain cp j where a: "a = (cp, j)" by (cases a) auto
            from utf8_sequence_high [OF hb Some [unfolded a]]
            have c: "128 \<le> cp" and e: "cp = 305 \<longrightarrow> of_char b = (196::nat) \<and> (\<exists>r. rest = CHR 0xB1 # r)"
              by simp_all
            from e False have "cp \<noteq> 305" by (auto dest: of_char_196)
            with c Some a high show ?thesis by simp
          qed
          then obtain cp tl where d: "utf8_decode (b # rest) = cp # tl" and c: "128 \<le> cp" "cp \<noteq> 305"
            by blast
          from pre_ok_high [OF k c(1)] c(2) have "\<not> pre_ok cp (of_char k)" by simp
          moreover from lower_high [OF k hb] have "lower_char b \<noteq> lower_char k" .
          ultimately show ?thesis unfolding Cons K f d by (simp add: lower_def)
        qed
      qed
    qed
  qed
qed

lemma upper_word:
  assumes "list_all capital K" "plain (map of_char K)"
  shows "upper s = K \<longleftrightarrow> eq_ignore_case (fold_dotless s) K"
proof -
  from assms(1) have a: "list_all (\<lambda>k. (of_char k :: nat) < 128) K"
    by (auto simp: list_all_iff capital_def simple_letter_def)
  from assms(1) have l: "list_all simple_letter (map of_char K)"
    by (auto simp: list_all_iff capital_def)
  have "upper s = K \<longleftrightarrow> concat (map upper_full (utf8_decode s)) = map of_char K"
    unfolding upper_def by (rule utf8_encode_ascii [OF a])
  also have "\<dots> \<longleftrightarrow> list_all2 pre_ok (utf8_decode s) (map of_char K)"
    by (rule upper_cps_word [OF assms(2) l])
  also have "\<dots> \<longleftrightarrow> lower (fold_dotless s) = lower K"
    by (rule decode_word [OF assms(1)])
  finally show ?thesis by (simp add: eq_ignore_case_def)
qed

lemma fold_dotless_irrelevant:
  "list_all capital K \<Longrightarrow> CHR ''I'' \<notin> set K \<Longrightarrow>
   lower (fold_dotless s) = lower K \<longleftrightarrow> lower s = lower K"
proof (induction s arbitrary: K rule: fold_dotless.induct)
  case 1
  then show ?case by simp
next
  case (2 c)
  then show ?case by simp
next
  case (3 c d rest)
  show ?case
  proof (cases K)
    case Nil
    then show ?thesis by (simp add: lower_def)
  next
    case K: (Cons k K')
    with "3.prems" have k: "capital k" "k \<noteq> CHR ''I''" and K': "list_all capital K'" "CHR ''I'' \<notin> set K'"
      by auto
    show ?thesis
    proof (cases "c = CHR 0xC4 \<and> d = CHR 0xB1")
      case True
      have "128 \<le> (of_char c :: nat)" using True by simp
      from lower_high [OF k(1) this] lower_i_capital [OF k(1)] k(2) True K show ?thesis
        by (simp add: lower_def lower_char_i)
    next
      case False
      then have f: "fold_dotless (c # d # rest) = c # fold_dotless (d # rest)" by auto
      from "3.IH"(2) [OF False K'] show ?thesis unfolding f K by (simp add: lower_def)
    qed
  qed
qed

lemma capital_ERROR: "list_all capital ''ERROR''"
  by (simp add: capital_def simple_letter_def)

lemma capital_WARNING: "list_all capital ''WARNING''"
  by (simp add: capital_def simple_letter_def)

lemma plain_ERROR: "plain (map of_char ''ERROR'')"
  by code_simp

lemma plain_WARNING: "plain (map of_char ''WARNING'')"
  by code_simp

lemma upper_ERROR_iff: "upper s = ''ERROR'' \<longleftrightarrow> eq_ignore_case s ''ERROR''"
  using upper_word [OF capital_ERROR plain_ERROR, of s]
    fold_dotless_irrelevant [OF capital_ERROR, of s]
  by (simp add: eq_ignore_case_def)

lemma upper_WARNING_iff: "upper s = ''WARNING'' \<longleftrightarrow> eq_ignore_case (fold_dotless s) ''WARNING''"
  by (rule upper_word [OF capital_WARNING plain_WARNING])


section \<open>Severity mapping\<close>

text \<open>
  Claim C5, as it is stated, fails on a string that is not \<open>WARNING\<close> in any case:
  \<open>str.upper()\<close> turns the dotless \<open>i\<close> of \<open>warn\<close>\<open>U+0131\<close>\<open>ng\<close> into \<open>I\<close>, the
  key \<open>WARNING\<close> is found and the result is \<open>HIGH\<close>, where the claim has \<open>MEDIUM\<close>.
\<close>

theorem severity_mapping_counterexample:
  "\<not> eq_ignore_case (''warn'' @ [CHR 0xC4, CHR 0xB1] @ ''ng'') ''WARNING''
   \<and> map_semgrep_severity_to_sast_severity (Some (''warn'' @ [CHR 0xC4, CHR 0xB1] @ ''ng''))
       = ''HIGH''"
  by code_simp

text \<open>
  Claim C5, amended. For every engine severity, \<open>map_semgrep_severity_to_sast_severity\<close>
  returns \<open>CRITICAL\<close> when the input equals \<open>ERROR\<close> ignoring case, \<open>HIGH\<close> when it
  equals \<open>WARNING\<close> ignoring case once every dotless \<open>i\<close> (\<open>U+0131\<close>) is read as
  \<open>i\<close>, \<open>MEDIUM\<close> when it equals \<open>INFO\<close> ignoring case, and \<open>MEDIUM\<close> for any
  other input and for a missing one (\<open>None\<close>).
\<close>

theorem severity_mapping:
  "map_semgrep_severity_to_sast_severity sev =
     (case sev of
        None \<Rightarrow> ''MEDIUM''
      | Some s \<Rightarrow>
          if eq_ignore_case s ''ERROR'' then ''CRITICAL''
          else if eq_ignore_case (fold_dotless s) ''WARNING'' then ''HIGH''
          else if eq_ignore_case s ''INFO'' then ''MEDIUM''
          else ''MEDIUM'')"
proof (cases sev)
  case None
  then show ?thesis by (simp add: map_semgrep_severity_to_sast_severity_def)
next
  case (Some s)
  show ?thesis
  proof (cases "s = []")
    case True
    have "\<not> eq_ignore_case [] ''ERROR''" "\<not> eq_ignore_case (fold_dotless []) ''WARNING''"
      by (simp_all add: eq_ignore_case_def lower_def)
    with True Some show ?thesis
      by (simp add: map_semgrep_severity_to_sast_severity_def)
  next
    case False
    with Some show ?thesis
      unfolding map_semgrep_severity_to_sast_severity_def severity_map_def
      using upper_ERROR_iff [of s] upper_WARNING_iff [of s] by auto
  qed
qed

section \<open>Extension of the scratch file\<close>

text \<open>
  Claim C7. For every content type and URL, the extension chosen by the scan invoker is
  the one of the priority list: the content-type keys \<open>html\<close>, \<open>javascript\<close>, \<open>json\<close>,
  \<open>php\<close>, \<open>python\<close>, tested in that order, come first; when none occurs, the URL
  suffixes \<open>.js\<close>, \<open>.php\<close>, \<open>.py\<close> decide; otherwise the extension is \<open>.txt\<close>.
\<close>

theorem extension_priority:
  "scratch_extension content_type url = spec_extension content_type url"
  unfolding scratch_extension_def spec_extension_def spec_content_type_rules_def
    spec_url_suffixes_def
  by simp

section \<open>The bounded stores\<close>

lemma length_lastn: "length (lastn n xs) = min n (length xs)"
  by (auto simp: lastn_def)

lemma lastn_short: "length xs \<le> n \<Longrightarrow> lastn n xs = xs"
  by (simp add: lastn_def)

lemma lastn_append_long: "n \<le> length ys \<Longrightarrow> lastn n (xs @ ys) = lastn n ys"
  by (simp add: lastn_def)

lemma lastn_append_short:
  "length ys \<le> n \<Longrightarrow> lastn n (xs @ ys) = lastn (n - length ys) xs @ ys"
  by (simp add: lastn_def)

lemma set_lastn: "set (lastn n xs) \<subseteq> set xs"
  by (simp add: lastn_def set_drop_subset)

lemma trim_lastn:
  "length xs \<le> Suc n \<Longrightarrow> (if length xs > n then tl xs else xs) = lastn n xs"
proof (cases "length xs \<le> n")
  case True
  then show ?thesis by (simp add: lastn_short)
next
  case False
  assume "length xs \<le> Suc n"
  with False have "length xs = Suc n" by simp
  then show ?thesis by (simp add: lastn_def drop_Suc)
qed

lemma lastn_lastn_append:
  "lastn n (lastn n xs @ ys) = lastn n (xs @ ys)"
proof (cases "length xs \<le> n")
  case True
  then show ?thesis by (simp add: lastn_short)
next
  case False
  then have l: "length (lastn n xs) = n" by (simp add: length_lastn)
  have "lastn n (lastn n xs @ ys) = drop (length ys) (lastn n xs @ ys)"
    unfolding lastn_def [of n "lastn n xs @ ys"] using l by simp
  also have "\<dots> = drop (length ys) (lastn n xs) @ drop (length ys - n) ys"
    using l by simp
  also have "\<dots> = drop (length ys + (length xs - n)) xs @ drop (length ys - n) ys"
    by (simp add: lastn_def)
  also have "\<dots> = lastn n (xs @ ys)"
    using False by (simp add: lastn_def add.commute)
  finally show ?thesis .
qed

lemma append_finding_lastn:
  "length fs \<le> MAX_SAST_FINDINGS \<Longrightarrow> append_finding x fs = lastn MAX_SAST_FINDINGS (fs @ [x])"
  unfolding append_finding_def Let_def
  by (rule trim_lastn) simp

lemma fold_append_finding:
  "length fs \<le> MAX_SAST_FINDINGS \<Longrightarrow>
     fold append_finding xs fs = lastn MAX_SAST_FINDINGS (fs @ xs)"
proof (induction xs arbitrary: fs)
  case Nil
  then show ?case by (simp add: lastn_short)
next
  case (Cons x xs)
  have l: "length (append_finding x fs) \<le> MAX_SAST_FINDINGS"
    using Cons.prems by (simp add: append_finding_lastn length_lastn)
  have "fold append_finding (x # xs) fs = fold append_finding xs (append_finding x fs)"
    by simp
  also have "\<dots> = lastn MAX_SAST_FINDINGS (append_finding x fs @ xs)"
    by (rule Cons.IH [OF l])
  also have "\<dots> = lastn MAX_SAST_FINDINGS ((fs @ [x]) @ xs)"
    using Cons.prems by (simp only: append_finding_lastn lastn_lastn_append)
  finally show ?case by simp
qed

lemma add_sast_findings_lastn:
  "length fs \<le> MAX_SAST_FINDINGS \<Longrightarrow>
     add_sast_findings c fs =
       lastn MAX_SAST_FINDINGS (fs @ (case c of None \<Rightarrow> [] | Some xs \<Rightarrow> xs))"
  by (cases c) (auto simp: add_sast_findings_def lastn_short fold_append_finding)

lemma fold_add_sast_findings:
  "length fs \<le> MAX_SAST_FINDINGS \<Longrightarrow>
     fold add_sast_findings calls fs = lastn MAX_SAST_FINDINGS (fs @ inserted_findings calls)"
proof (induction calls arbitrary: fs)
  case Nil
  then show ?case by (simp add: inserted_findings_def lastn_short)
next
  case (Cons c calls)
  let ?xs = "case c of None \<Rightarrow> [] | Some xs \<Rightarrow> xs"
  have s: "add_sast_findings c fs = lastn MAX_SAST_FINDINGS (fs @ ?xs)"
    by (rule add_sast_findings_lastn [OF Cons.prems])
  then have l: "length (add_sast_findings c fs) \<le> MAX_SAST_FINDINGS"
    by (simp add: length_lastn)
  have "fold add_sast_findings (c # calls) fs = fold add_sast_findings calls (add_sast_findings c fs)"
    by simp
  also have "\<dots> = lastn MAX_SAST_FINDINGS (add_sast_findings c fs @ inserted_findings calls)"
    by (rule Cons.IH [OF l])
  also have "\<dots> = lastn MAX_SAST_FINDINGS ((fs @ ?xs) @ inserted_findings calls)"
    by (simp only: s lastn_lastn_append)
  finally show ?case by (simp add: inserted_findings_def)
qed

lemma add_scanning_item_lastn:
  assumes "length reg \<le> MAX_SCANNING_ITEMS"
  shows "add_scanning_item (Some it) reg =
     lastn MAX_SCANNING_ITEMS (filter (\<lambda>scan. scan_url scan \<noteq> scan_url it) reg @ [it])"
proof -
  let ?s1 = "filter (\<lambda>scan. scan_url scan \<noteq> scan_url it) reg"
  have "length ?s1 \<le> length reg" by (rule length_filter_le)
  from this assms have "length ?s1 \<le> MAX_SCANNING_ITEMS" by (rule le_trans)
  then have l: "length (?s1 @ [it]) \<le> Suc MAX_SCANNING_ITEMS" by simp
  show ?thesis
    unfolding add_scanning_item_def Let_def option.case
    by (rule trim_lastn [OF l])
qed

lemma add_scanning_step:
  assumes "\<forall>y\<in>set I. scan_url y \<noteq> scan_url x"
  shows "\<exists>q. add_scanning_item (Some x) (lastn MAX_SCANNING_ITEMS (p @ I))
              = lastn MAX_SCANNING_ITEMS (q @ I @ [x])"
proof -
  let ?n = MAX_SCANNING_ITEMS
  let ?P = "\<lambda>scan. scan_url scan \<noteq> scan_url x"
  have l: "length (lastn ?n (p @ I)) \<le> ?n" by (simp add: length_lastn)
  have a: "add_scanning_item (Some x) (lastn ?n (p @ I))
             = lastn ?n (filter ?P (lastn ?n (p @ I)) @ [x])"
    by (rule add_scanning_item_lastn [OF l])
  have fI: "filter ?P I = I" using assms by simp
  show ?thesis
  proof (cases "?n \<le> length I")
    case True
    then have st: "lastn ?n (p @ I) = lastn ?n I" by (rule lastn_append_long)
    have "set (lastn ?n I) \<subseteq> set I" by (rule set_lastn)
    with assms have "\<forall>y\<in>set (lastn ?n I). ?P y" by (simp add: subset_iff)
    then have "filter ?P (lastn ?n I) = lastn ?n I" by (simp only: filter_True)
    with a st have "add_scanning_item (Some x) (lastn ?n (p @ I)) = lastn ?n (lastn ?n I @ [x])"
      by simp
    also have "\<dots> = lastn ?n ([] @ I @ [x])" by (simp add: lastn_lastn_append)
    finally show ?thesis by (rule exI)
  next
    case False
    then have "length I \<le> ?n" by simp
    then have st: "lastn ?n (p @ I) = lastn (?n - length I) p @ I" by (rule lastn_append_short)
    have "add_scanning_item (Some x) (lastn ?n (p @ I))
            = lastn ?n (filter ?P (lastn (?n - length I) p) @ I @ [x])"
      using a st fI by simp
    then show ?thesis by (rule exI)
  qed
qed

lemma fold_add_scanning_item:
  "length reg \<le> MAX_SCANNING_ITEMS \<Longrightarrow> distinct (map scan_url items) \<Longrightarrow>
   \<exists>p. fold (\<lambda>item. add_scanning_item (Some item)) items reg
        = lastn MAX_SCANNING_ITEMS (p @ items)"
proof (induction items rule: rev_induct)
  case Nil
  then have "fold (\<lambda>item. add_scanning_item (Some item)) [] reg = lastn MAX_SCANNING_ITEMS (reg @ [])"
    by (simp add: lastn_short)
  then show ?case by (rule exI)
next
  case (snoc x xs)
  from snoc.prems have d: "distinct (map scan_url xs)"
    and nin: "scan_url x \<notin> scan_url ` set xs"
    by simp_all
  from nin have f: "\<forall>y\<in>set xs. scan_url y \<noteq> scan_url x"
    by (metis imageI)
  from snoc.IH [OF snoc.prems(1) d] obtain p where
    p: "fold (\<lambda>item. add_scanning_item (Some item)) xs reg = lastn MAX_SCANNING_ITEMS (p @ xs)"
    by blast
  from add_scanning_step [OF f, of p] obtain q where
    "add_scanning_item (Some x) (lastn MAX_SCANNING_ITEMS (p @ xs))
       = lastn MAX_SCANNING_ITEMS (q @ xs @ [x])"
    by blast
  with p have "fold (\<lambda>item. add_scanning_item (Some item)) (xs @ [x]) reg
       = lastn MAX_SCANNING_ITEMS (q @ xs @ [x])"
    by simp
  then show ?case by (rule exI)
qed

text \<open>
  Claim C2. For both bounded stores, after a sequence of \<open>N\<close> insertions with \<open>N\<close>
  greater than the cap (\<open>MAX_SCANNING_ITEMS\<close> for \<open>add_scanning_item\<close> with distinct
  URLs, \<open>MAX_SAST_FINDINGS\<close> for \<open>add_sast_findings\<close>), the size of the store equals the
  cap and its contents are exactly the most recent cap insertions, in insertion order.
  The store starts in any state within its cap, which is every state the operations reach.
\<close>

theorem bounded_stores:
  "(length reg \<le> MAX_SCANNING_ITEMS \<longrightarrow> distinct (map scan_url items) \<longrightarrow>
      MAX_SCANNING_ITEMS < length items \<longrightarrow>
      fold (\<lambda>item. add_scanning_item (Some item)) items reg
        = drop (length items - MAX_SCANNING_ITEMS) items
      \<and> length (fold (\<lambda>item. add_scanning_item (Some item)) items reg) = MAX_SCANNING_ITEMS)
   \<and> (length fs \<le> MAX_SAST_FINDINGS \<longrightarrow>
      MAX_SAST_FINDINGS < length (inserted_findings calls) \<longrightarrow>
      fold add_sast_findings calls fs
        = drop (length (inserted_findings calls) - MAX_SAST_FINDINGS) (inserted_findings calls)
      \<and> length (fold add_sast_findings calls fs) = MAX_SAST_FINDINGS)"
proof (intro conjI impI)
  assume a: "length reg \<le> MAX_SCANNING_ITEMS" "distinct (map scan_url items)"
    and n: "MAX_SCANNING_ITEMS < length items"
  from fold_add_scanning_item [OF a] obtain p where
    "fold (\<lambda>item. add_scanning_item (Some item)) items reg = lastn MAX_SCANNING_ITEMS (p @ items)"
    by blast
  with n show r: "fold (\<lambda>item. add_scanning_item (Some item)) items reg
        = drop (length items - MAX_SCANNING_ITEMS) items"
    by (simp add: lastn_append_long) (simp add: lastn_def)
  from n show "length (fold (\<lambda>item. add_scanning_item (Some item)) items reg) = MAX_SCANNING_ITEMS"
    unfolding r by simp
next
  assume a: "length fs \<le> MAX_SAST_FINDINGS"
    and n: "MAX_SAST_FINDINGS < length (inserted_findings calls)"
  from n show r: "fold add_sast_findings calls fs
        = drop (length (inserted_findings calls) - MAX_SAST_FINDINGS) (inserted_findings calls)"
    by (simp add: fold_add_sast_findings [OF a] lastn_append_long) (simp add: lastn_def)
  from n show "length (fold add_sast_findings calls fs) = MAX_SAST_FINDINGS"
    unfolding r by simp
qed


theorem bounded_stores_witness:
  "length ([] :: scanning_item list) \<le> MAX_SCANNING_ITEMS
   \<and> distinct (map scan_url (map example_item [0..<21]))
   \<and> MAX_SCANNING_ITEMS < length (map example_item [0..<21])
   \<and> fold (\<lambda>item. add_scanning_item (Some item)) (map example_item [0..<21]) []
       = map example_item [1..<21]
   \<and> length ([] :: finding list) \<le> MAX_SAST_FINDINGS
   \<and> MAX_SAST_FINDINGS
       < length (inserted_findings
           [Some (replicate 300 example_finding), None, Some [], Some (replicate 201 example_finding)])
   \<and> fold add_sast_findings
         [Some (replicate 300 example_finding), None, Some [], Some (replicate 201 example_finding)] []
       = replicate 500 example_finding"
proof -
  let ?items = "map example_item [0..<21]"
  let ?calls = "[Some (replicate 300 example_finding), None, Some [],
                 Some (replicate 201 example_finding)]"
  have h1: "length ([] :: scanning_item list) \<le> MAX_SCANNING_ITEMS" by simp
  have h2: "distinct (map scan_url ?items)"
    by (simp add: example_item_def distinct_map inj_on_def o_def)
  have h3: "MAX_SCANNING_ITEMS < length ?items" by (simp add: MAX_SCANNING_ITEMS_def)
  have h4: "length ([] :: finding list) \<le> MAX_SAST_FINDINGS" by simp
  have ins: "inserted_findings ?calls = replicate 501 example_finding"
    by (simp add: inserted_findings_def flip: replicate_add)
  have h5: "MAX_SAST_FINDINGS < length (inserted_findings ?calls)"
    by (simp add: ins MAX_SAST_FINDINGS_def)
  have d1: "drop (length ?items - MAX_SCANNING_ITEMS) ?items = map example_item [1..<21]"
    by (simp add: MAX_SCANNING_ITEMS_def drop_map)
  have d2: "drop (length (inserted_findings ?calls) - MAX_SAST_FINDINGS) (inserted_findings ?calls)
              = replicate 500 example_finding"
    by (simp add: ins MAX_SAST_FINDINGS_def)
  from bounded_stores [of "[]" ?items "[]" ?calls] h1 h2 h3 h4 h5 d1 d2
  show ?thesis by simp
qed

section \<open>One scanning item per URL\<close>

lemma filter_tl_snoc:
  "xs \<noteq> [] \<Longrightarrow> \<forall>y\<in>set xs. \<not> P y \<Longrightarrow> P x \<Longrightarrow> filter P (tl (xs @ [x])) = [x]"
  by (cases xs) auto

lemma update_status_urls:
  "map scan_url (update_scanning_item_status url status reg) = map scan_url reg"
  by (induction reg) auto

lemma add_scanning_item_distinct:
  assumes "distinct (map scan_url reg)"
  shows "distinct (map scan_url (add_scanning_item item reg))"
proof (cases item)
  case None
  with assms show ?thesis by (simp add: add_scanning_item_def)
next
  case (Some it)
  let ?s1 = "filter (\<lambda>scan. scan_url scan \<noteq> scan_url it) reg"
  have "distinct (map scan_url ?s1)" using assms by (rule distinct_map_filter)
  moreover have "scan_url it \<notin> set (map scan_url ?s1)" by auto
  ultimately have d: "distinct (map scan_url (?s1 @ [it]))" by simp
  then have "distinct (map scan_url (tl (?s1 @ [it])))"
    by (simp only: map_tl distinct_tl)
  with d Some show ?thesis by (simp add: add_scanning_item_def Let_def)
qed

lemma reachable_distinct: "reachable_scanning reg \<Longrightarrow> distinct (map scan_url reg)"
proof (induction rule: reachable_scanning.induct)
  case start
  show ?case by simp
next
  case (add s item)
  then show ?case by (simp add: add_scanning_item_distinct)
next
  case (update s url status)
  then show ?case by (simp add: update_status_urls)
next
  case (remove s url)
  then show ?case by (simp add: remove_scanning_item_def distinct_map_filter)
qed

text \<open>
  Claim C3. For every state of the scanning list and every item with a URL, after
  \<open>add_scanning_item(item)\<close> the list holds exactly one entry whose URL is the item's,
  and it is the new item, with its status, timestamp and type; a prior entry with that URL
  is replaced, and no state that the operations reach holds two entries with one URL.
\<close>

theorem upsert_by_url:
  "filter (\<lambda>scan. scan_url scan = scan_url item) (add_scanning_item (Some item) reg) = [item]
   \<and> (distinct (map scan_url reg) \<longrightarrow>
        distinct (map scan_url (add_scanning_item (Some item) reg)))
   \<and> (reachable_scanning reg \<longrightarrow> distinct (map scan_url reg))"
proof (intro conjI impI)
  let ?s1 = "filter (\<lambda>scan. scan_url scan \<noteq> scan_url item) reg"
  show "filter (\<lambda>scan. scan_url scan = scan_url item) (add_scanning_item (Some item) reg) = [item]"
  proof (cases "length (?s1 @ [item]) > MAX_SCANNING_ITEMS")
    case True
    then have "?s1 \<noteq> []" by (auto simp: MAX_SCANNING_ITEMS_def)
    then have "filter (\<lambda>scan. scan_url scan = scan_url item) (tl (?s1 @ [item])) = [item]"
      by (rule filter_tl_snoc) simp_all
    with True show ?thesis by (simp add: add_scanning_item_def Let_def)
  next
    case False
    then show ?thesis by (simp add: add_scanning_item_def Let_def)
  qed
next
  assume "distinct (map scan_url reg)"
  then show "distinct (map scan_url (add_scanning_item (Some item) reg))"
    by (rule add_scanning_item_distinct)
next
  assume "reachable_scanning reg"
  then show "distinct (map scan_url reg)" by (rule reachable_distinct)
qed

theorem upsert_by_url_witness:
  "distinct (map scan_url [item_a, item_b])
   \<and> reachable_scanning [item_a, item_b]
   \<and> add_scanning_item (Some item_a2) [item_a, item_b] = [item_b, item_a2]
   \<and> filter (\<lambda>scan. scan_url scan = scan_url item_a2)
        (add_scanning_item (Some item_a2) [item_a, item_b]) = [item_a2]
   \<and> distinct (map scan_url (add_scanning_item (Some item_a2) [item_a, item_b]))"
proof -
  have d: "distinct (map scan_url [item_a, item_b])"
    by (simp add: item_a_def item_b_def)
  have s1: "add_scanning_item (Some item_a) [] = [item_a]"
    by (simp add: add_scanning_item_def MAX_SCANNING_ITEMS_def)
  have s2: "add_scanning_item (Some item_b) [item_a] = [item_a, item_b]"
    by (simp add: add_scanning_item_def MAX_SCANNING_ITEMS_def item_a_def item_b_def)
  have "reachable_scanning (add_scanning_item (Some item_b) (add_scanning_item (Some item_a) []))"
    by (intro reachable_scanning.add reachable_scanning.start)
  then have r: "reachable_scanning [item_a, item_b]" by (simp only: s1 s2)
  have e: "add_scanning_item (Some item_a2) [item_a, item_b] = [item_b, item_a2]"
    by (simp add: add_scanning_item_def MAX_SCANNING_ITEMS_def item_a_def item_b_def item_a2_def)
  from upsert_by_url [of item_a2 "[item_a, item_b]"] d r e show ?thesis by simp
qed

section \<open>Status update\<close>

lemma update_status_no_match:
  "\<forall>item\<in>set reg. scan_url item \<noteq> url \<Longrightarrow> update_scanning_item_status url status reg = reg"
  by (induction reg) auto

lemma update_status_first_match:
  "\<forall>x\<in>set pre. scan_url x \<noteq> url \<Longrightarrow> scan_url item = url \<Longrightarrow>
   update_scanning_item_status url status (pre @ item # post)
     = pre @ item\<lparr>scan_status := status\<rparr> # post"
  by (induction pre) auto

lemma update_status_timestamps:
  "map scan_timestamp (update_scanning_item_status url status reg) = map scan_timestamp reg"
  by (induction reg) auto

lemma update_status_types:
  "map scan_type (update_scanning_item_status url status reg) = map scan_type reg"
  by (induction reg) auto

lemma update_status_length:
  "length (update_scanning_item_status url status reg) = length reg"
  by (induction reg) auto

text \<open>
  Claim C10. For every scanning list, URL and status, \<open>update_scanning_item_status\<close>
  changes at most the status of the first entry whose URL matches: the length and the
  order of the list, and the URL, timestamp and type of every entry, are unchanged, every
  other entry is unchanged, and the call changes nothing when no entry has that URL.
\<close>

theorem update_status_frame:
  "length (update_scanning_item_status url status reg) = length reg
   \<and> map scan_url (update_scanning_item_status url status reg) = map scan_url reg
   \<and> map scan_timestamp (update_scanning_item_status url status reg) = map scan_timestamp reg
   \<and> map scan_type (update_scanning_item_status url status reg) = map scan_type reg
   \<and> ((\<forall>item\<in>set reg. scan_url item \<noteq> url) \<longrightarrow>
        update_scanning_item_status url status reg = reg)
   \<and> (\<forall>pre item post.
        reg = pre @ item # post \<and> (\<forall>x\<in>set pre. scan_url x \<noteq> url) \<and> scan_url item = url \<longrightarrow>
        update_scanning_item_status url status reg
          = pre @ item\<lparr>scan_status := status\<rparr> # post)"
  by (simp add: update_status_length update_status_urls update_status_timestamps
      update_status_types update_status_no_match update_status_first_match)

theorem update_status_frame_witness:
  "scan_url item_b \<noteq> ''http://x/a.js''
   \<and> update_scanning_item_status ''http://x/a.js'' ''completed'' [item_b] = [item_b]
   \<and> scan_url item_a2 = ''http://x/a.js''
   \<and> update_scanning_item_status ''http://x/a.js'' ''completed'' [item_b, item_a2, item_a]
       = [item_b, item_a2\<lparr>scan_status := ''completed''\<rparr>, item_a]"
proof -
  have n: "\<forall>item\<in>set [item_b]. scan_url item \<noteq> ''http://x/a.js''"
    by (simp add: item_b_def)
  have u: "scan_url item_a2 = ''http://x/a.js''" by (simp add: item_a2_def)
  from update_status_frame [of "''http://x/a.js''" "''completed''" "[item_b]"] n
  have one: "update_scanning_item_status ''http://x/a.js'' ''completed'' [item_b] = [item_b]"
    by blast
  from update_status_frame [of "''http://x/a.js''" "''completed''" "[item_b, item_a2, item_a]"]
  have "[item_b, item_a2, item_a] = [item_b] @ item_a2 # [item_a]
          \<and> (\<forall>x\<in>set [item_b]. scan_url x \<noteq> ''http://x/a.js'') \<and> scan_url item_a2 = ''http://x/a.js''
        \<longrightarrow> update_scanning_item_status ''http://x/a.js'' ''completed'' [item_b, item_a2, item_a]
              = [item_b] @ item_a2\<lparr>scan_status := ''completed''\<rparr> # [item_a]"
    by blast
  with n u one show ?thesis by simp
qed

section \<open>Rule sets of an extension\<close>

lemma os_path_join_plain:
  "a \<noteq> [] \<Longrightarrow> \<not> suffix ''/'' a \<Longrightarrow> CHR ''/'' \<notin> set b \<Longrightarrow> os_path_join a b = a @ ''/'' @ b"
  by (cases b) (auto simp: os_path_join_def)

lemma filter_isdir_join:
  "\<forall>n\<in>set names. os_path_join path n = path @ ''/'' @ n \<Longrightarrow>
   filter (isdir e) (map (os_path_join path) names)
     = map (\<lambda>n. path @ ''/'' @ n) (filter (\<lambda>n. isdir e (path @ ''/'' @ n)) names)"
  by (induction names) auto

lemma list_rulesets_names:
  assumes "listdir e path = Some names" "path \<noteq> []" "\<not> suffix ''/'' path"
    "\<forall>n\<in>set names. CHR ''/'' \<notin> set n"
  shows "list_rulesets e path =
     Inr ((path @ ''/security'') #
          map (\<lambda>n. path @ ''/'' @ n) (filter (\<lambda>n. isdir e (path @ ''/'' @ n)) names))"
proof -
  have "\<forall>n\<in>set names. os_path_join path n = path @ ''/'' @ n"
    using assms by (simp add: os_path_join_plain)
  then have "filter (isdir e) (map (os_path_join path) names)
     = map (\<lambda>n. path @ ''/'' @ n) (filter (\<lambda>n. isdir e (path @ ''/'' @ n)) names)"
    by (rule filter_isdir_join)
  then show ?thesis using assms(1)
    by (simp add: list_rulesets_def)
qed

text \<open>
  Claim C8, as it is stated, fails for a supported extension whose language directory
  cannot be listed: \<open>os.listdir\<close> raises at line 111 and no list is resolved.
\<close>

theorem ruleset_resolution_counterexample:
  "spec_language ''.js'' = Some ''javascript''
   \<and> resolve_rulesets (example_env\<lparr>listdir := (\<lambda>p. None)\<rparr>) ''.js'' = Inl OSError"
  by code_simp

text \<open>
  Claim C8, amended. For every extension, the resolution of the rule sets gives the empty list
  unless the extension is \<open>.js\<close>, \<open>.html\<close>, \<open>.php\<close> or \<open>.py\<close>; for a supported
  extension, when the directory of its language can be listed, the list starts with
  \<open><rules-root>/<language>/security\<close> and goes on with every entry of
  \<open><rules-root>/<language>\<close> that is a directory, in the order of the listing;
  \<open>security\<close> comes a second time when the listing has it.
\<close>

theorem ruleset_resolution:
  "(extension \<notin> {''.js'', ''.html'', ''.php'', ''.py''} \<longrightarrow> resolve_rulesets e extension = Inr [])
   \<and> (spec_language extension \<noteq> None \<longleftrightarrow> extension \<in> {''.js'', ''.html'', ''.php'', ''.py''})
   \<and> (\<forall>language names.
        spec_language extension = Some language
        \<and> listdir e (RULES_DIR e @ ''/'' @ language) = Some names
        \<and> (\<forall>n\<in>set names. CHR ''/'' \<notin> set n) \<longrightarrow>
        resolve_rulesets e extension =
          Inr ((RULES_DIR e @ ''/'' @ language @ ''/security'') #
               map (\<lambda>n. RULES_DIR e @ ''/'' @ language @ ''/'' @ n)
                 (filter (\<lambda>n. isdir e (RULES_DIR e @ ''/'' @ language @ ''/'' @ n)) names)))"
proof (intro conjI allI impI)
  show "resolve_rulesets e extension = Inr []" if "extension \<notin> {''.js'', ''.html'', ''.php'', ''.py''}"
    using that by (simp add: resolve_rulesets_def)
  show "spec_language extension \<noteq> None \<longleftrightarrow> extension \<in> {''.js'', ''.html'', ''.php'', ''.py''}"
    by (simp add: spec_language_def)
  fix language names
  assume a: "spec_language extension = Some language
        \<and> listdir e (RULES_DIR e @ ''/'' @ language) = Some names
        \<and> (\<forall>n\<in>set names. CHR ''/'' \<notin> set n)"
  then have l: "listdir e (RULES_DIR e @ ''/'' @ language) = Some names"
    and n: "\<forall>n\<in>set names. CHR ''/'' \<notin> set n" by simp_all
  from a have "(extension = ''.js'' \<and> language = ''javascript'')
      \<or> (extension = ''.html'' \<and> language = ''html'')
      \<or> (extension = ''.php'' \<and> language = ''php'')
      \<or> (extension = ''.py'' \<and> language = ''python'')"
    by (auto simp: spec_language_def split: if_splits)
  then show "resolve_rulesets e extension =
          Inr ((RULES_DIR e @ ''/'' @ language @ ''/security'') #
               map (\<lambda>n. RULES_DIR e @ ''/'' @ language @ ''/'' @ n)
                 (filter (\<lambda>n. isdir e (RULES_DIR e @ ''/'' @ language @ ''/'' @ n)) names))"
  proof (elim disjE conjE)
    assume e: "extension = ''.js''" "language = ''javascript''"
    have "list_rulesets e (RULES_DIR e @ ''/javascript'') = Inr ((( RULES_DIR e @ ''/javascript'') @ ''/security'') #
          map (\<lambda>n. (RULES_DIR e @ ''/javascript'') @ ''/'' @ n) (filter (\<lambda>n. isdir e ((RULES_DIR e @ ''/javascript'') @ ''/'' @ n)) names))"
      using l n e by (intro list_rulesets_names) (simp_all add: suffix_to_prefix)
    then show ?thesis using e by (simp add: resolve_rulesets_def)
  next
    assume e: "extension = ''.html''" "language = ''html''"
    have "list_rulesets e (RULES_DIR e @ ''/html'') = Inr ((( RULES_DIR e @ ''/html'') @ ''/security'') #
          map (\<lambda>n. (RULES_DIR e @ ''/html'') @ ''/'' @ n) (filter (\<lambda>n. isdir e ((RULES_DIR e @ ''/html'') @ ''/'' @ n)) names))"
      using l n e by (intro list_rulesets_names) (simp_all add: suffix_to_prefix)
    then show ?thesis using e by (simp add: resolve_rulesets_def)
  next
    assume e: "extension = ''.php''" "language = ''php''"
    have "list_rulesets e (RULES_DIR e @ ''/php'') = Inr ((( RULES_DIR e @ ''/php'') @ ''/security'') #
          map (\<lambda>n. (RULES_DIR e @ ''/php'') @ ''/'' @ n) (filter (\<lambda>n. isdir e ((RULES_DIR e @ ''/php'') @ ''/'' @ n)) names))"
      using l n e by (intro list_rulesets_names) (simp_all add: suffix_to_prefix)
    then show ?thesis using e by (simp add: resolve_rulesets_def)
  next
    assume e: "extension = ''.py''" "language = ''python''"
    have "list_rulesets e (RULES_DIR e @ ''/python'') = Inr ((( RULES_DIR e @ ''/python'') @ ''/security'') #
          map (\<lambda>n. (RULES_DIR e @ ''/python'') @ ''/'' @ n) (filter (\<lambda>n. isdir e ((RULES_DIR e @ ''/python'') @ ''/'' @ n)) names))"
      using l n e by (intro list_rulesets_names) (simp_all add: suffix_to_prefix)
    then show ?thesis using e by (simp add: resolve_rulesets_def)
  qed
qed

theorem ruleset_resolution_witness:
  "''.txt'' \<notin> {''.js'', ''.html'', ''.php'', ''.py''}
   \<and> resolve_rulesets example_env ''.txt'' = Inr []
   \<and> spec_language ''.js'' = Some ''javascript''
   \<and> listdir example_env (RULES_DIR example_env @ ''/'' @ ''javascript'')
       = Some [''security'', ''lang'', ''README.md'']
   \<and> CHR ''/'' \<notin> set (concat [''security'', ''lang'', ''README.md''])
   \<and> resolve_rulesets example_env ''.js'' =
       Inr [''/app/semgrep-rules/javascript/security'',
            ''/app/semgrep-rules/javascript/security'', ''/app/semgrep-rules/javascript/lang'']"
proof -
  have r: "RULES_DIR example_env = ''/app/semgrep-rules''"
    by (simp add: RULES_DIR_def example_env_def os_path_join_def suffix_to_prefix)
  have h0: "''.txt'' \<notin> {''.js'', ''.html'', ''.php'', ''.py''}" by simp
  have h1: "spec_language ''.js'' = Some ''javascript''" by (simp add: spec_language_def)
  have h2: "listdir example_env (RULES_DIR example_env @ ''/'' @ ''javascript'')
       = Some [''security'', ''lang'', ''README.md'']"
    by (simp add: r) (simp add: example_env_def)
  have h3: "\<forall>n\<in>set [''security'', ''lang'', ''README.md'']. CHR ''/'' \<notin> set n" by simp
  from ruleset_resolution [of "''.txt''" example_env] h0
  have a: "resolve_rulesets example_env ''.txt'' = Inr []" by blast
  from ruleset_resolution [of "''.js''" example_env] h1 h2 h3
  have "resolve_rulesets example_env ''.js'' =
          Inr ((RULES_DIR example_env @ ''/'' @ ''javascript'' @ ''/security'') #
               map (\<lambda>n. RULES_DIR example_env @ ''/'' @ ''javascript'' @ ''/'' @ n)
                 (filter (\<lambda>n. isdir example_env (RULES_DIR example_env @ ''/'' @ ''javascript'' @ ''/'' @ n))
                    [''security'', ''lang'', ''README.md'']))"
    by blast
  then have b: "resolve_rulesets example_env ''.js'' =
       Inr [''/app/semgrep-rules/javascript/security'',
            ''/app/semgrep-rules/javascript/security'', ''/app/semgrep-rules/javascript/lang'']"
    by (simp add: r) (simp add: example_env_def)
  have h4: "CHR ''/'' \<notin> set (concat [''security'', ''lang'', ''README.md''])" by simp
  from h0 h1 h2 h4 a b show ?thesis by blast
qed

section \<open>Findings of the engine\<close>

lemma split_on_shape:
  "last (split_on d s) = rev (takeWhile (\<lambda>c. c \<noteq> d) (rev s))
   \<and> split_on d s \<noteq> []
   \<and> (d \<notin> set s \<longrightarrow> split_on d s = [s])
   \<and> (d \<in> set s \<longrightarrow> tl (split_on d s) \<noteq> [])"
proof (induction s)
  case Nil
  show ?case by simp
next
  case (Cons c cs)
  show ?case
  proof (cases "c = d")
    case True
    with Cons show ?thesis
      by (cases "d \<in> set cs") (auto simp: takeWhile_tail takeWhile_append)
  next
    case False
    with Cons show ?thesis
      by (cases "split_on d cs"; cases "d \<in> set cs") (auto simp: takeWhile_append)
  qed
qed

lemma last_split_on: "last (split_on CHR ''.'' s) = spec_last_segment s"
  by (simp add: split_on_shape spec_last_segment_def)


lemma append_results_shape:
  "append_results rq ext entries acc = Inr out \<Longrightarrow>
   \<forall>f\<in>set out. f \<in> set acc \<or> (\<exists>r. Entry r \<in> set entries \<and> f = semgrep_finding rq ext r)"
proof (induction rq ext entries acc rule: append_results.induct)
  case (1 rq extension findings)
  then show ?case by simp
next
  case (2 rq extension rest findings)
  then show ?case by simp
next
  case (3 rq extension f rest findings)
  from "3.prems" have "append_results rq extension rest (findings @ [semgrep_finding rq extension f]) = Inr out"
    by simp
  from "3.IH" [OF this] show ?case by auto
qed

lemma run_rulesets_shape:
  "run_rulesets e rq ext tmp rulesets acc = Inr out \<Longrightarrow>
   \<forall>f\<in>set out. f \<in> set acc \<or>
     (\<exists>ruleset entries r. engine e ruleset tmp = Results entries \<and> Entry r \<in> set entries
        \<and> f = semgrep_finding rq ext r)"
proof (induction rulesets arbitrary: acc)
  case Nil
  then show ?case by simp
next
  case (Cons ruleset rest)
  show ?case
  proof (cases "path_exists e ruleset")
    case False
    with Cons.prems have "run_rulesets e rq ext tmp rest acc = Inr out" by simp
    from Cons.IH [OF this] show ?thesis .
  next
    case True
    show ?thesis
    proof (cases "engine e ruleset tmp")
      case SubprocessError
      with True Cons.prems have "run_rulesets e rq ext tmp rest acc = Inr out" by simp
      from Cons.IH [OF this] show ?thesis .
    next
      case SpawnError
      with True Cons.prems show ?thesis by simp
    next
      case JSONDecodeError
      with True Cons.prems have "run_rulesets e rq ext tmp rest acc = Inr out" by simp
      from Cons.IH [OF this] show ?thesis .
    next
      case ResultsMissing
      with True Cons.prems show ?thesis by simp
    next
      case ResultsNotList
      with True Cons.prems have "run_rulesets e rq ext tmp rest acc = Inr out" by simp
      from Cons.IH [OF this] show ?thesis .
    next
      case (Results entries)
      show ?thesis
      proof (cases "append_results rq ext entries acc")
        case (Inl x)
        with True Results Cons.prems show ?thesis by simp
      next
        case (Inr acc')
        with True Results Cons.prems have "run_rulesets e rq ext tmp rest acc' = Inr out" by simp
        from Cons.IH [OF this] have
          i: "\<forall>f\<in>set out. f \<in> set acc' \<or>
            (\<exists>ruleset entries r. engine e ruleset tmp = Results entries \<and> Entry r \<in> set entries
              \<and> f = semgrep_finding rq ext r)" .
        from append_results_shape [OF Inr] have
          j: "\<forall>f\<in>set acc'. f \<in> set acc \<or> (\<exists>r. Entry r \<in> set entries \<and> f = semgrep_finding rq ext r)" .
        show ?thesis
        proof
          fix f assume "f \<in> set out"
          with i have "f \<in> set acc' \<or>
            (\<exists>ruleset entries r. engine e ruleset tmp = Results entries \<and> Entry r \<in> set entries
              \<and> f = semgrep_finding rq ext r)" by blast
          then show "f \<in> set acc \<or>
            (\<exists>ruleset entries r. engine e ruleset tmp = Results entries \<and> Entry r \<in> set entries
              \<and> f = semgrep_finding rq ext r)"
          proof
            assume "f \<in> set acc'"
            with j have "f \<in> set acc \<or> (\<exists>r. Entry r \<in> set entries \<and> f = semgrep_finding rq ext r)"
              by blast
            with Results show ?thesis by blast
          qed blast
        qed
      qed
    qed
  qed
qed

lemma scratch_extension_dot:
  "\<exists>t. scratch_extension content_type url = CHR ''.'' # t"
  by (simp add: scratch_extension_def)

lemma run_semgrep_analysis_shape:
  assumes "f \<in> set (fst (run_semgrep_analysis e w rq))"
  shows "\<exists>ruleset entries r.
           engine e ruleset (temp_file_path_of e (scratch_extension (req_content_type rq) (req_url rq)))
             = Results entries
           \<and> Entry r \<in> set entries
           \<and> f = semgrep_finding rq (scratch_extension (req_content_type rq) (req_url rq)) r"
proof -
  let ?ext = "scratch_extension (req_content_type rq) (req_url rq)"
  let ?tmp = "temp_file_path_of e ?ext"
  from assms obtain rulesets out where
    r: "run_rulesets e rq ?ext ?tmp rulesets [] = Inr out" and f: "f \<in> set out"
    by (auto simp: run_semgrep_analysis_def Let_def
        split: if_splits write_outcome.splits sum.splits)
  from run_rulesets_shape [OF r] f show ?thesis by auto
qed

lemma example_run:
  "run_semgrep_analysis example_env example_world example_request
     = ([example_js_finding], example_world)"
  by code_simp

lemma upper_rule: "upper ''rule'' = ''RULE''"
  by code_simp

lemma upper_js: "upper ''js'' = ''JS''"
  by code_simp

lemma example_segment:
  "spec_last_segment ''javascript.lang.security.eval.rule'' = ''rule''"
  by (simp add: spec_last_segment_def)

text \<open>
  Claim C6. For every entry of the engine's results that the scan invoker maps to a
  finding: the type of the finding is the last dot-delimited segment of the entry's rule
  id in upper case, its \<open>cveId\<close> is \<open>[SEMGREP-\<close> followed by the rule id and \<open>]\<close>,
  and its \<open>tech\<close> is the extension of the scratch file without the leading dot, in upper
  case. Every finding that \<open>run_semgrep_analysis\<close> returns is made so from an entry
  that the engine reported.
\<close>

theorem finding_fields:
  "(\<forall>t. fnd_type (semgrep_finding rq (CHR ''.'' # t) r) = upper (spec_last_segment (raw_check_id r))
        \<and> fnd_cveId (semgrep_finding rq (CHR ''.'' # t) r) = ''[SEMGREP-'' @ raw_check_id r @ '']''
        \<and> fnd_tech (semgrep_finding rq (CHR ''.'' # t) r) = upper t)
   \<and> (\<forall>f\<in>set (fst (run_semgrep_analysis e w rq)).
        \<exists>entry t. scratch_extension (req_content_type rq) (req_url rq) = CHR ''.'' # t
          \<and> (\<exists>ruleset entries.
                engine e ruleset (temp_file_path_of e (CHR ''.'' # t)) = Results entries
                \<and> Entry entry \<in> set entries)
          \<and> fnd_type f = upper (spec_last_segment (raw_check_id entry))
          \<and> fnd_cveId f = ''[SEMGREP-'' @ raw_check_id entry @ '']''
          \<and> fnd_tech f = upper t)"
proof (intro conjI allI ballI)
  fix t
  show "fnd_type (semgrep_finding rq (CHR ''.'' # t) r) = upper (spec_last_segment (raw_check_id r))"
    by (simp add: semgrep_finding_def last_split_on)
  show "fnd_cveId (semgrep_finding rq (CHR ''.'' # t) r) = ''[SEMGREP-'' @ raw_check_id r @ '']''"
    by (simp add: semgrep_finding_def)
  show "fnd_tech (semgrep_finding rq (CHR ''.'' # t) r) = upper t"
    by (simp add: semgrep_finding_def)
next
  fix f assume "f \<in> set (fst (run_semgrep_analysis e w rq))"
  from run_semgrep_analysis_shape [OF this] obtain ruleset entries entry where
    e: "engine e ruleset (temp_file_path_of e (scratch_extension (req_content_type rq) (req_url rq)))
             = Results entries"
    and m: "Entry entry \<in> set entries"
    and f: "f = semgrep_finding rq (scratch_extension (req_content_type rq) (req_url rq)) entry"
    by blast
  from scratch_extension_dot obtain t where
    t: "scratch_extension (req_content_type rq) (req_url rq) = CHR ''.'' # t" by blast
  have "fnd_type f = upper (spec_last_segment (raw_check_id entry))"
    "fnd_cveId f = ''[SEMGREP-'' @ raw_check_id entry @ '']''"
    "fnd_tech f = upper t"
    by (simp_all add: f t semgrep_finding_def last_split_on)
  with e m t show "\<exists>entry t. scratch_extension (req_content_type rq) (req_url rq) = CHR ''.'' # t
          \<and> (\<exists>ruleset entries.
                engine e ruleset (temp_file_path_of e (CHR ''.'' # t)) = Results entries
                \<and> Entry entry \<in> set entries)
          \<and> fnd_type f = upper (spec_last_segment (raw_check_id entry))
          \<and> fnd_cveId f = ''[SEMGREP-'' @ raw_check_id entry @ '']''
          \<and> fnd_tech f = upper t"
    by auto
qed


theorem finding_fields_witness:
  "example_js_finding \<in> set (fst (run_semgrep_analysis example_env example_world example_request))
   \<and> (\<exists>entry t.
         scratch_extension (req_content_type example_request) (req_url example_request) = CHR ''.'' # t
         \<and> (\<exists>ruleset entries.
               engine example_env ruleset (temp_file_path_of example_env (CHR ''.'' # t)) = Results entries
               \<and> Entry entry \<in> set entries)
         \<and> fnd_type example_js_finding = upper (spec_last_segment (raw_check_id entry))
         \<and> fnd_cveId example_js_finding = ''[SEMGREP-'' @ raw_check_id entry @ '']''
         \<and> fnd_tech example_js_finding = upper t)
   \<and> fnd_type (semgrep_finding example_request ''.js'' example_raw) = ''RULE''
   \<and> fnd_cveId (semgrep_finding example_request ''.js'' example_raw)
       = ''[SEMGREP-javascript.lang.security.eval.rule]''
   \<and> fnd_tech (semgrep_finding example_request ''.js'' example_raw) = ''JS''"
proof -
  note t = finding_fields [of example_request example_raw example_env example_world]
  have m: "example_js_finding \<in> set (fst (run_semgrep_analysis example_env example_world example_request))"
    by (simp add: example_run)
  from t m have a: "\<exists>entry t.
         scratch_extension (req_content_type example_request) (req_url example_request) = CHR ''.'' # t
         \<and> (\<exists>ruleset entries.
               engine example_env ruleset (temp_file_path_of example_env (CHR ''.'' # t)) = Results entries
               \<and> Entry entry \<in> set entries)
         \<and> fnd_type example_js_finding = upper (spec_last_segment (raw_check_id entry))
         \<and> fnd_cveId example_js_finding = ''[SEMGREP-'' @ raw_check_id entry @ '']''
         \<and> fnd_tech example_js_finding = upper t"
    by blast
  from t have "fnd_type (semgrep_finding example_request (CHR ''.'' # ''js'') example_raw)
                 = upper (spec_last_segment (raw_check_id example_raw))
        \<and> fnd_cveId (semgrep_finding example_request (CHR ''.'' # ''js'') example_raw)
                 = ''[SEMGREP-'' @ raw_check_id example_raw @ '']''
        \<and> fnd_tech (semgrep_finding example_request (CHR ''.'' # ''js'') example_raw) = upper ''js''"
    by blast
  then have b: "fnd_type (semgrep_finding example_request ''.js'' example_raw) = ''RULE''
     \<and> fnd_cveId (semgrep_finding example_request ''.js'' example_raw)
       = ''[SEMGREP-javascript.lang.security.eval.rule]''
     \<and> fnd_tech (semgrep_finding example_request ''.js'' example_raw) = ''JS''"
    by (simp add: example_raw_def example_segment upper_rule upper_js)
  from m a b show ?thesis by blast
qed

section \<open>The guard of the pipeline\<close>

text \<open>
  Claim C9. For every call of \<open>analyze_sast\<close> whose record is empty or \<open>None\<close>, or whose
  body is empty or \<open>None\<close>, the function returns the empty list and nothing has changed:
  the findings, the scanning list (no item is created for the record's URL), the scratch
  files and the pending timers are as before.
\<close>

theorem analyze_sast_guard:
  "falsy_record record \<or> falsy_body body \<Longrightarrow> analyze_sast e w record body hdrs = ([], w)"
  by (simp add: analyze_sast_def)

theorem analyze_sast_guard_witness:
  "(falsy_record (Some png_record) \<or> falsy_body (Some []))
   \<and> analyze_sast example_env busy_world (Some png_record) (Some []) (Some plain_headers)
       = ([], busy_world)
   \<and> (falsy_record None \<or> falsy_body (Some ''eval(userInput)''))
   \<and> analyze_sast example_env busy_world None (Some ''eval(userInput)'') (Some plain_headers)
       = ([], busy_world)"
proof -
  have h1: "falsy_record (Some png_record) \<or> falsy_body (Some [])"
    by (simp add: falsy_body_def)
  have h2: "falsy_record None \<or> falsy_body (Some ''eval(userInput)'')"
    by (simp add: falsy_record_def)
  from analyze_sast_guard [OF h1, of example_env busy_world "Some plain_headers"]
    analyze_sast_guard [OF h2, of example_env busy_world "Some plain_headers"] h1 h2
  show ?thesis by blast
qed

section \<open>Eligibility\<close>

lemma busy_world_reached:
  "analyze_sast example_env example_world (Some png_record) (Some ''hello'') (Some plain_headers)
     = ([], busy_world)"
  by code_simp

lemma png_not_text: "\<not> is_text (header_content_type png_headers) ''http://x/logo.png''"
  by code_simp

text \<open>
  Claim C4, as it is stated, fails where the body is empty: the call returns at the guard
  of line 310, before the scanning list is touched, so an item that an earlier call
  registered for the same URL is still in the list after the call.
\<close>

theorem eligibility_counterexample:
  "\<not> is_text (header_content_type png_headers) ''http://x/logo.png''
   \<and> falsy_body (Some [])
   \<and> fst (analyze_sast example_env busy_world (Some png_record) (Some []) (Some png_headers)) = []
   \<and> map scan_url
       (sast_scanning
          (snd (analyze_sast example_env busy_world (Some png_record) (Some []) (Some png_headers))))
       = [''http://x/logo.png'']"
  by (simp add: png_not_text falsy_body_def analyze_sast_def busy_world_def)

lemma remove_scanning_item_absent:
  "url \<notin> scan_url ` set (remove_scanning_item url scanning)"
  by (auto simp: remove_scanning_item_def)

text \<open>
  Claim C4, amended. For every content type (in \<open>analyze_sast\<close>: the header value in
  lower case) and URL, \<open>is_js\<close> holds if and only if the content type contains
  \<open>javascript\<close>, \<open>application/json\<close> or \<open>application/x-javascript\<close>, or the URL ends
  in \<open>.js\<close>; \<open>is_text\<close> holds if and only if the content type contains \<open>text\<close> or
  \<open>xml\<close>, or \<open>is_html\<close>, or \<open>is_js\<close>. When the record and the body are not empty
  and \<open>is_text\<close> is false, \<open>analyze_sast\<close> returns the empty list and no item for that
  URL is in the scanning list after the call. When the body is empty, \<open>analyze_sast\<close>
  returns the empty list and leaves the scanning list as it was.
\<close>

theorem eligibility_flags:
  "(is_js content_type url \<longleftrightarrow>
      str_in ''javascript'' content_type \<or> str_in ''application/json'' content_type
      \<or> str_in ''application/x-javascript'' content_type \<or> endswith url ''.js'')
   \<and> (is_text content_type url \<longleftrightarrow>
      str_in ''text'' content_type \<or> str_in ''xml'' content_type \<or> is_html content_type
      \<or> is_js content_type url)
   \<and> (r \<noteq> empty_record \<and> body \<noteq> None \<and> body \<noteq> Some []
       \<and> \<not> is_text (header_content_type (case hdrs of None \<Rightarrow> Map.empty | Some h \<Rightarrow> h))
              (get_default (rec_url r) []) \<longrightarrow>
       fst (analyze_sast e w (Some r) body hdrs) = []
       \<and> get_default (rec_url r) []
           \<notin> scan_url ` set (sast_scanning (snd (analyze_sast e w (Some r) body hdrs))))
   \<and> (falsy_body body \<longrightarrow>
       analyze_sast e w record body hdrs = ([], w))"
proof (intro conjI impI)
  show "is_js content_type url \<longleftrightarrow>
      str_in ''javascript'' content_type \<or> str_in ''application/json'' content_type
      \<or> str_in ''application/x-javascript'' content_type \<or> endswith url ''.js''"
    by (simp add: is_js_def)
  show "is_text content_type url \<longleftrightarrow>
      str_in ''text'' content_type \<or> str_in ''xml'' content_type \<or> is_html content_type
      \<or> is_js content_type url"
    by (auto simp: is_text_def)
next
  assume a: "r \<noteq> empty_record \<and> body \<noteq> None \<and> body \<noteq> Some []
       \<and> \<not> is_text (header_content_type (case hdrs of None \<Rightarrow> Map.empty | Some h \<Rightarrow> h))
              (get_default (rec_url r) [])"
  then have g: "\<not> (falsy_record (Some r) \<or> falsy_body body)"
    by (simp add: falsy_record_def falsy_body_def)
  from a g show "fst (analyze_sast e w (Some r) body hdrs) = []"
    by (simp add: analyze_sast_def Let_def get_default_def)
  from a g show "get_default (rec_url r) []
           \<notin> scan_url ` set (sast_scanning (snd (analyze_sast e w (Some r) body hdrs)))"
    by (simp add: analyze_sast_def Let_def get_default_def remove_scanning_item_absent)
next
  assume "falsy_body body"
  then show "analyze_sast e w record body hdrs = ([], w)"
    by (simp add: analyze_sast_def)
qed

theorem eligibility_flags_witness:
  "png_record \<noteq> empty_record \<and> Some ''hello'' \<noteq> (None :: string option)
   \<and> Some ''hello'' \<noteq> Some []
   \<and> \<not> is_text (header_content_type (case Some png_headers of None \<Rightarrow> Map.empty | Some h \<Rightarrow> h))
          (get_default (rec_url png_record) [])
   \<and> fst (analyze_sast example_env busy_world (Some png_record) (Some ''hello'') (Some png_headers)) = []
   \<and> get_default (rec_url png_record) []
       \<notin> scan_url ` set (sast_scanning
            (snd (analyze_sast example_env busy_world (Some png_record) (Some ''hello'')
                    (Some png_headers))))
   \<and> falsy_body (Some [])
   \<and> analyze_sast example_env busy_world (Some png_record) (Some []) (Some png_headers)
       = ([], busy_world)"
proof -
  have h1: "png_record \<noteq> empty_record" by (simp add: png_record_def empty_record_def)
  have h2: "\<not> is_text (header_content_type (case Some png_headers of None \<Rightarrow> Map.empty | Some h \<Rightarrow> h))
          (get_default (rec_url png_record) [])"
    using png_not_text by (simp add: png_record_def get_default_def)
  have h3: "falsy_body (Some [])" by (simp add: falsy_body_def)
  from eligibility_flags [of _ _ png_record "Some ''hello''" "Some png_headers" example_env busy_world
      "Some png_record"] h1 h2
  have a: "fst (analyze_sast example_env busy_world (Some png_record) (Some ''hello'') (Some png_headers)) = []
   \<and> get_default (rec_url png_record) []
       \<notin> scan_url ` set (sast_scanning
            (snd (analyze_sast example_env busy_world (Some png_record) (Some ''hello'')
                    (Some png_headers))))"
    by simp
  from eligibility_flags [of _ _ png_record "Some []" "Some png_headers" example_env busy_world
      "Some png_record"] h3
  have b: "analyze_sast example_env busy_world (Some png_record) (Some []) (Some png_headers)
       = ([], busy_world)"
    by simp
  from h1 h2 h3 a b show ?thesis by simp
qed

section \<open>The scratch file\<close>

text \<open>
  When the loop over the rule sets comes to its end and \<open>os.unlink\<close> succeeds, the scratch
  file is gone when \<open>run_semgrep_analysis\<close> returns.
\<close>

lemma scratch_file_removed_on_return:
  assumes "semgrep_initialized w" "write_result e = WriteOk" "unlink_ok e"
    and "extension = scratch_extension (req_content_type rq) (req_url rq)"
    and "resolve_rulesets e extension = Inr rulesets"
    and "run_rulesets e rq extension (temp_file_path_of e extension) rulesets [] = Inr out"
  shows "temp_file_path_of e extension \<notin> files (snd (run_semgrep_analysis e w rq))"
  using assms by (cases "rulesets = []") (simp_all add: run_semgrep_analysis_def Let_def)

text \<open>
  Claim C1 says that the scratch file no longer exists when \<open>run_semgrep_analysis\<close>
  returns, whatever happened after the file was written. The code does not do that: when
  the rules directory of the language cannot be listed, \<open>os.listdir\<close> raises, the handler
  of line 191 returns the empty list, and the \<open>os.unlink\<close> of line 186 is never reached.
  The scratch file of the request is on disk after the call.
\<close>

theorem scratch_file_left_behind:
  "run_semgrep_analysis (example_env\<lparr>listdir := (\<lambda>p. None)\<rparr>) example_world example_request
     = ([], example_world\<lparr>files := {''/app/temp_sast/0f8fad5b.js''}\<rparr>)"
  by code_simp


end
